theory Spec2Isabelle
  imports Main "HOL-Library.Word"
begin

section \<open>Data model\<close>

text \<open>
  The Badger-backed node database of the MKVS storage engine (package \<open>badger\<close>).
  Versions and Badger timestamps are \<open>uint64\<close>. A namespace and a hash are opaque
  32-byte values; they are numbered by naturals, and the numbering of hashes is chosen
  so that the hash of the empty tree is \<open>0\<close>.
\<close>

type_synonym version = "64 word"
type_synonym ts = "64 word"
type_synonym namespace = nat
type_synonym hash = nat
type_synonym bytes = "8 word list"

definition emptyHash :: hash where
  "emptyHash = 0"

definition IsEmpty :: "hash \<Rightarrow> bool" where
  "IsEmpty h = (h = emptyHash)"

definition multipartVersionNone :: version where
  "multipartVersionNone = 0"

datatype rootType = RootTypeInvalid | RootTypeState | RootTypeIO

text \<open>
  Modelled from the spec: \<open>api.TypedHash\<close>, the fingerprint of a root, is its type and
  its hash (\<open>TypedHashFromRoot\<close>, \<open>TypedHashFromParts\<close>); the hash that \<open>IsEmpty\<close> is
  the hash of the empty tree.
\<close>

type_synonym typedHash = "rootType \<times> hash"

record root =
  Namespace :: namespace
  Version :: version
  Type :: rootType
  Hash :: hash

definition TypedHashFromRoot :: "root \<Rightarrow> typedHash" where
  "TypedHashFromRoot r = (Type r, Hash r)"

definition TypedHashFromParts :: "rootType \<Rightarrow> hash \<Rightarrow> typedHash" where
  "TypedHashFromParts t h = (t, h)"

text \<open>\<open>node.Pointer\<close>, as far as the database reads it.\<close>

record pointer =
  ptrClean :: bool
  ptrHash :: hash

record updatedNode =
  Removed :: bool
  nodeHash :: hash

type_synonym writeLog = "(bytes \<times> bytes) list"
type_synonym annotations = "hash list"

text \<open>
  Roots metadata of one version: the Go map from a root to its derived roots, as an
  association list. The order of the list stands for the order in which Go ranges over
  the map, which is not fixed.
\<close>

type_synonym rootsMetadata = "(typedHash \<times> typedHash list) list"

record serializedMetadata =
  metaVersion :: "64 word"
  metaNamespace :: namespace
  EarliestVersion :: version
  LastFinalizedVersion :: "version option"
  MultipartVersion :: version

datatype error =
    ErrReadOnly
  | ErrBadNamespace
  | ErrNodeNotFound
  | ErrRootNotFound
  | ErrWriteLogNotFound
  | ErrRootMustFollowOld
  | ErrPreviousVersionMismatch
  | ErrNotFinalized
  | ErrAlreadyFinalized
  | ErrNotEarliest
  | ErrCannotPruneLatestVersion
  | ErrMultipartInProgress
  | ErrInvalidMultipartVersion
  | ErrKeyNotFound
  | Errorf string
  | Panic string

section \<open>The backing store\<close>

text \<open>
  The key formats of the database (\<open>nodeKeyFmt\<close>, \<open>writeLogKeyFmt\<close>, ...). The byte
  encoding of a key is the work of package \<open>keyformat\<close>; a key is kept here as its
  tag and fields.
\<close>

datatype key =
    NodeKey hash
  | WriteLogKey version typedHash typedHash
  | RootsMetadataKey version
  | RootUpdatedNodesKey version typedHash
  | MetadataKey
  | MultipartRestoreNodeLogKey typedHash
  | RootNodeKey typedHash

text \<open>
  The values stored under the keys, as what their CBOR or binary encoding decodes to.
  The hashed write log that \<open>api.MakeHashedDBWriteLog\<close> computes is kept as the write
  log and annotations it is computed from.
\<close>

datatype val =
    VNode bytes
  | VWriteLog writeLog annotations
  | VRootsMetadata rootsMetadata
  | VUpdatedNodes "updatedNode list"
  | VMetadata serializedMetadata
  | VEmpty

text \<open>
  Badger in managed mode keeps every key at the timestamps it was written at; a delete
  writes a tombstone (\<open>None\<close>). The store is the list of its writes, the newest
  first. A read at timestamp \<open>t\<close> sees, for a key, the write with the greatest
  timestamp at most \<open>t\<close>, and of two writes at one timestamp the newer.
\<close>

type_synonym store = "(key \<times> ts \<times> val option) list"

fun latest :: "store \<Rightarrow> key \<Rightarrow> ts \<Rightarrow> (ts \<times> val option) option" where
  "latest [] k t = None"
| "latest ((k', t', v) # rest) k t =
     (if k' = k \<and> t' \<le> t then
        (case latest rest k t of
           None \<Rightarrow> Some (t', v)
         | Some (t'', v'') \<Rightarrow> if t' < t'' then Some (t'', v'') else Some (t', v))
      else latest rest k t)"

text \<open>The item of a key at a read timestamp: its version and value, if it is there.\<close>

definition dbGet :: "store \<Rightarrow> ts \<Rightarrow> key \<Rightarrow> (ts \<times> val) option" where
  "dbGet s t k =
     (case latest s k t of
        None \<Rightarrow> None
      | Some (t', None) \<Rightarrow> None
      | Some (t', Some v) \<Rightarrow> Some (t', v))"

text \<open>
  A transaction reads at its timestamp and sees its own pending writes first (the
  newest first); \<open>CommitAt\<close> writes them at the commit timestamp.
\<close>

record txn =
  readTs :: ts
  pendingWrites :: "(key \<times> val option) list"

definition NewTransactionAt :: "ts \<Rightarrow> txn" where
  "NewTransactionAt t = \<lparr>readTs = t, pendingWrites = []\<rparr>"

definition txGet :: "store \<Rightarrow> txn \<Rightarrow> key \<Rightarrow> (ts \<times> val) option" where
  "txGet s tx k =
     (case map_of (pendingWrites tx) k of
        Some None \<Rightarrow> None
      | Some (Some v) \<Rightarrow> Some (readTs tx, v)
      | None \<Rightarrow> dbGet s (readTs tx) k)"

definition txSet :: "txn \<Rightarrow> key \<Rightarrow> val \<Rightarrow> txn" where
  "txSet tx k v = tx\<lparr>pendingWrites := (k, Some v) # pendingWrites tx\<rparr>"

definition txDelete :: "txn \<Rightarrow> key \<Rightarrow> txn" where
  "txDelete tx k = tx\<lparr>pendingWrites := (k, None) # pendingWrites tx\<rparr>"

definition CommitAt :: "store \<Rightarrow> txn \<Rightarrow> ts \<Rightarrow> store" where
  "CommitAt s tx t = map (\<lambda>(k, v). (k, t, v)) (pendingWrites tx) @ s"

text \<open>A write batch at a timestamp; \<open>Flush\<close> writes it, \<open>Cancel\<close> drops it.\<close>

record writeBatch =
  batchTs :: ts
  batchWrites :: "(key \<times> ts \<times> val option) list"

definition NewWriteBatchAt :: "ts \<Rightarrow> writeBatch" where
  "NewWriteBatchAt t = \<lparr>batchTs = t, batchWrites = []\<rparr>"

definition batchSet :: "writeBatch \<Rightarrow> key \<Rightarrow> val \<Rightarrow> writeBatch" where
  "batchSet b k v = b\<lparr>batchWrites := (k, batchTs b, Some v) # batchWrites b\<rparr>"

definition batchDelete :: "writeBatch \<Rightarrow> key \<Rightarrow> writeBatch" where
  "batchDelete b k = b\<lparr>batchWrites := (k, batchTs b, None) # batchWrites b\<rparr>"

definition batchDeleteAt :: "writeBatch \<Rightarrow> key \<Rightarrow> ts \<Rightarrow> writeBatch" where
  "batchDeleteAt b k t = b\<lparr>batchWrites := (k, t, None) # batchWrites b\<rparr>"

definition Flush :: "store \<Rightarrow> writeBatch \<Rightarrow> store" where
  "Flush s b = batchWrites b @ s"

definition Cancel :: "writeBatch \<Rightarrow> writeBatch" where
  "Cancel b = b\<lparr>batchWrites := []\<rparr>"

section \<open>The node database\<close>

record badgerNodeDB =
  namespace :: namespace
  readOnly :: bool
  discardWriteLogs :: bool
  multipartVersion :: version
  db :: store
  meta :: serializedMetadata

text \<open>
  What the database uses and its source does not declare: the metadata timestamp
  \<open>tsMetadata\<close> and the timestamp of a version (\<open>versionToTs\<close>, \<open>tsToVersion\<close>), the
  byte order of encoded keys (the order of an iterator), \<open>node.Root.Follows\<close>,
  \<open>node.UnmarshalBinary\<close> and \<open>api.Visit\<close>. They are parameters of the model, and
  every theorem holds for all of them. \<open>Visit\<close> gives the hashes of the nodes it
  would hand to a visitor that never stops it, and the error it would end with.
\<close>

record 'n params =
  tsMetadata :: ts
  versionToTs :: "version \<Rightarrow> ts"
  tsToVersion :: "ts \<Rightarrow> version"
  keyOrder :: "key \<Rightarrow> key \<Rightarrow> bool"
  Follows :: "root \<Rightarrow> root \<Rightarrow> bool"
  UnmarshalBinary :: "bytes \<Rightarrow> 'n option"
  Visit :: "badgerNodeDB \<Rightarrow> root \<Rightarrow> hash list \<times> error option"

subsection \<open>Iterators\<close>

fun insertKey :: "(key \<Rightarrow> key \<Rightarrow> bool) \<Rightarrow> key \<Rightarrow> key list \<Rightarrow> key list" where
  "insertKey le k [] = [k]"
| "insertKey le k (x # xs) = (if le k x then k # x # xs else x # insertKey le k xs)"

fun sortKeys :: "(key \<Rightarrow> key \<Rightarrow> bool) \<Rightarrow> key list \<Rightarrow> key list" where
  "sortKeys le [] = []"
| "sortKeys le (k # ks) = insertKey le k (sortKeys le ks)"

text \<open>
  An iterator of a transaction with a prefix: the keys under the prefix that the
  transaction sees, in key order.
\<close>

definition txIterate :: "'n params \<Rightarrow> store \<Rightarrow> txn \<Rightarrow> (key \<Rightarrow> bool) \<Rightarrow> key list" where
  "txIterate P s tx prefix =
     sortKeys (keyOrder P)
       (filter (\<lambda>k. prefix k \<and> txGet s tx k \<noteq> None)
          (remdups (map fst (pendingWrites tx) @ map fst s)))"

fun writeLogPrefix2 :: "version \<Rightarrow> typedHash \<Rightarrow> key \<Rightarrow> bool" where
  "writeLogPrefix2 v r (WriteLogKey v' r' old) = (v' = v \<and> r' = r)"
| "writeLogPrefix2 v r k = False"

fun writeLogPrefix1 :: "version \<Rightarrow> key \<Rightarrow> bool" where
  "writeLogPrefix1 v (WriteLogKey v' r' old) = (v' = v)"
| "writeLogPrefix1 v k = False"

fun multipartRestoreNodeLogPrefix :: "key \<Rightarrow> bool" where
  "multipartRestoreNodeLogPrefix (MultipartRestoreNodeLogKey h) = True"
| "multipartRestoreNodeLogPrefix k = False"

subsection \<open>Metadata\<close>

text \<open>
  Modelled from the spec: the getters of the metadata record (its methods are not among
  the sources). The record holds the engine version, the namespace, the earliest
  version, the optional last finalized version and the multipart version;
  \<open>getLastFinalizedVersion\<close> gives the version and whether there is one.
\<close>

definition getEarliestVersion :: "serializedMetadata \<Rightarrow> version" where
  "getEarliestVersion m = EarliestVersion m"

definition getLastFinalizedVersion :: "serializedMetadata \<Rightarrow> version \<times> bool" where
  "getLastFinalizedVersion m =
     (case LastFinalizedVersion m of None \<Rightarrow> (0, False) | Some v \<Rightarrow> (v, True))"

definition getMultipartVersion :: "serializedMetadata \<Rightarrow> version" where
  "getMultipartVersion m = MultipartVersion m"

text \<open>
  Modelled from the spec: the setters of the metadata record (not among the sources).
  Each sets its field and stores the record under the metadata key, in the
  transaction it is given. The first finalization also sets the earliest version:
  only versions from the earliest to the last finalized one have nodes that can be
  queried, and after versions 1, 2 and 3 are finalized on a new database, version 1
  is the earliest and can be pruned.
\<close>

definition metaSave :: "serializedMetadata \<Rightarrow> txn \<Rightarrow> txn" where
  "metaSave m tx = txSet tx MetadataKey (VMetadata m)"

definition setEarliestVersion ::
  "serializedMetadata \<Rightarrow> txn \<Rightarrow> version \<Rightarrow> serializedMetadata \<times> txn" where
  "setEarliestVersion m tx v =
     (let m' = m\<lparr>EarliestVersion := v\<rparr> in (m', metaSave m' tx))"

definition setLastFinalizedVersion ::
  "serializedMetadata \<Rightarrow> txn \<Rightarrow> version \<Rightarrow> serializedMetadata \<times> txn" where
  "setLastFinalizedVersion m tx v =
     (let m' = (case LastFinalizedVersion m of
                  None \<Rightarrow> m\<lparr>EarliestVersion := v, LastFinalizedVersion := Some v\<rparr>
                | Some lf \<Rightarrow> m\<lparr>LastFinalizedVersion := Some v\<rparr>)
      in (m', metaSave m' tx))"

definition setMultipartVersion ::
  "serializedMetadata \<Rightarrow> txn \<Rightarrow> version \<Rightarrow> serializedMetadata \<times> txn" where
  "setMultipartVersion m tx v =
     (let m' = m\<lparr>MultipartVersion := v\<rparr> in (m', metaSave m' tx))"

text \<open>
  Modelled from the spec: \<open>loadRootsMetadata\<close> and the \<open>save\<close> method of the roots
  metadata (not among the sources). Roots metadata is read through the transaction
  under the key of its version; when it is absent, it loads as the empty map.
\<close>

definition loadRootsMetadata :: "store \<Rightarrow> txn \<Rightarrow> version \<Rightarrow> error + rootsMetadata" where
  "loadRootsMetadata s tx v =
     (case txGet s tx (RootsMetadataKey v) of
        None \<Rightarrow> Inr []
      | Some (t, VRootsMetadata rm) \<Rightarrow> Inr rm
      | Some (t, other) \<Rightarrow> Inl (Errorf ''mkvs/badger: error reading roots metadata''))"

definition rootsMetaSave :: "rootsMetadata \<Rightarrow> version \<Rightarrow> txn \<Rightarrow> txn" where
  "rootsMetaSave rm v tx = txSet tx (RootsMetadataKey v) (VRootsMetadata rm)"

subsection \<open>Multipart restore\<close>

text \<open>
  \<open>StartMultipartInsert\<close>. An operation gives \<open>Inl\<close> the error, with the database
  as it was, or \<open>Inr\<close> the database after it. Errors of the backing store itself
  (I/O) are outside the model: its reads and commits succeed.
\<close>

definition StartMultipartInsert :: "'n params \<Rightarrow> badgerNodeDB \<Rightarrow> version \<Rightarrow> error + badgerNodeDB" where
  "StartMultipartInsert P d version =
     (if version = multipartVersionNone then Inl ErrInvalidMultipartVersion
      else if multipartVersion d \<noteq> multipartVersionNone then
        (if multipartVersion d \<noteq> version then Inl ErrMultipartInProgress
         else Inr d)
      else
        (let tx = NewTransactionAt (tsMetadata P);
             (m, tx) = setMultipartVersion (meta d) tx version;
             s = CommitAt (db d) tx (tsMetadata P)
         in Inr (d\<lparr>db := s, meta := m, multipartVersion := version\<rparr>)))"

text \<open>
  \<open>cleanMultipartLocked\<close>: every key of the multipart restore log is deleted at the
  metadata timestamp; with \<open>removeNodes\<close> the node or root marker it stands for is
  deleted too, at the timestamp of the restored version.
\<close>

fun cleanMultipartLoop :: "ts \<Rightarrow> bool \<Rightarrow> key list \<Rightarrow> writeBatch \<Rightarrow> error + writeBatch" where
  "cleanMultipartLoop tsMeta removeNodes [] batch = Inr batch"
| "cleanMultipartLoop tsMeta removeNodes (k # rest) batch =
     (if removeNodes then
        (case k of
           MultipartRestoreNodeLogKey hash \<Rightarrow>
             cleanMultipartLoop tsMeta removeNodes rest
               (batchDeleteAt
                  (case fst hash of
                     RootTypeInvalid \<Rightarrow> batchDelete batch (NodeKey (snd hash))
                   | _ \<Rightarrow> batchDelete batch (RootNodeKey hash))
                  k tsMeta)
         | _ \<Rightarrow> Inl (Panic ''mkvs/badger: bad iterator''))
      else cleanMultipartLoop tsMeta removeNodes rest (batchDeleteAt batch k tsMeta))"

definition cleanMultipartLocked :: "'n params \<Rightarrow> badgerNodeDB \<Rightarrow> bool \<Rightarrow> error + badgerNodeDB" where
  "cleanMultipartLocked P d removeNodes =
     (let version =
            (if multipartVersion d \<noteq> multipartVersionNone then multipartVersion d
             else getMultipartVersion (meta d))
      in if version = multipartVersionNone then Inr d
         else
           (let txn = NewTransactionAt (tsMetadata P);
                keys = txIterate P (db d) txn multipartRestoreNodeLogPrefix;
                batch = NewWriteBatchAt (versionToTs P version)
            in case cleanMultipartLoop (tsMetadata P) removeNodes keys batch of
                 Inl err \<Rightarrow> Inl err
               | Inr batch \<Rightarrow>
                   (let s = Flush (db d) batch;
                        metaTx = NewTransactionAt (tsMetadata P);
                        (m, metaTx) = setMultipartVersion (meta d) metaTx 0;
                        s = CommitAt s metaTx (tsMetadata P)
                    in Inr (d\<lparr>db := s, meta := m, multipartVersion := multipartVersionNone\<rparr>))))"

definition AbortMultipartInsert :: "'n params \<Rightarrow> badgerNodeDB \<Rightarrow> error + badgerNodeDB" where
  "AbortMultipartInsert P d = cleanMultipartLocked P d True"

subsection \<open>Reading\<close>

definition sanityCheckNamespace :: "badgerNodeDB \<Rightarrow> namespace \<Rightarrow> error option" where
  "sanityCheckNamespace d ns = (if ns \<noteq> namespace d then Some ErrBadNamespace else None)"

definition checkRoot :: "store \<Rightarrow> txn \<Rightarrow> root \<Rightarrow> error option" where
  "checkRoot s txn r =
     (let rootHash = TypedHashFromRoot r
      in case txGet s txn (RootNodeKey rootHash) of
           None \<Rightarrow> Some ErrRootNotFound
         | Some item \<Rightarrow> None)"

text \<open>
  \<open>GetNode\<close>. The pointer is \<open>None\<close> for Go's nil; a value under a node key that is
  not a serialized node fails to unmarshal.
\<close>

definition GetNode :: "'n params \<Rightarrow> badgerNodeDB \<Rightarrow> root \<Rightarrow> pointer option \<Rightarrow> error + 'n" where
  "GetNode P d r ptr =
     (case ptr of
        None \<Rightarrow> Inl (Panic ''mkvs/badger: attempted to get invalid pointer from node database'')
      | Some p \<Rightarrow>
          if \<not> ptrClean p then
            Inl (Panic ''mkvs/badger: attempted to get invalid pointer from node database'')
          else
            (case sanityCheckNamespace d (Namespace r) of
               Some err \<Rightarrow> Inl err
             | None \<Rightarrow>
                 if Version r < getEarliestVersion (meta d) then Inl ErrNodeNotFound
                 else
                   (let tx = NewTransactionAt (versionToTs P (Version r))
                    in case checkRoot (db d) tx r of
                         Some err \<Rightarrow> Inl err
                       | None \<Rightarrow>
                           (case txGet (db d) tx (NodeKey (ptrHash p)) of
                              None \<Rightarrow> Inl ErrNodeNotFound
                            | Some (t, VNode data) \<Rightarrow>
                                (case UnmarshalBinary P data of
                                   Some n \<Rightarrow> Inr n
                                 | None \<Rightarrow> Inl (Errorf ''mkvs/badger: failed to unmarshal node''))
                            | Some (t, other) \<Rightarrow>
                                Inl (Errorf ''mkvs/badger: failed to unmarshal node'')))))"

definition GetLatestVersion :: "badgerNodeDB \<Rightarrow> version \<times> bool" where
  "GetLatestVersion d = getLastFinalizedVersion (meta d)"

definition GetEarliestVersion :: "badgerNodeDB \<Rightarrow> version" where
  "GetEarliestVersion d = getEarliestVersion (meta d)"

definition GetRootsForVersion :: "'n params \<Rightarrow> badgerNodeDB \<Rightarrow> version \<Rightarrow> error + root list" where
  "GetRootsForVersion P d v =
     (if v < getEarliestVersion (meta d) then Inr []
      else
        (let tx = NewTransactionAt (tsMetadata P)
         in case loadRootsMetadata (db d) tx v of
              Inl err \<Rightarrow> Inl err
            | Inr rootsMeta \<Rightarrow>
                Inr (map (\<lambda>(rootHash, derivedRoots).
                            \<lparr>Namespace = namespace d, Version = v,
                             Type = fst rootHash, Hash = snd rootHash\<rparr>) rootsMeta)))"

text \<open>\<open>HasRoot\<close> gives a boolean, and panics when the roots metadata cannot be read.\<close>

definition HasRoot :: "'n params \<Rightarrow> badgerNodeDB \<Rightarrow> root \<Rightarrow> error + bool" where
  "HasRoot P d r =
     (case sanityCheckNamespace d (Namespace r) of
        Some err \<Rightarrow> Inr False
      | None \<Rightarrow>
          if IsEmpty (Hash r) then Inr True
          else if Version r < getEarliestVersion (meta d) then Inr False
          else
            (let tx = NewTransactionAt (tsMetadata P)
             in case loadRootsMetadata (db d) tx (Version r) of
                  Inl err \<Rightarrow> Inl (Panic ''mkvs/badger: error reading roots metadata'')
                | Inr rootsMeta \<Rightarrow> Inr (map_of rootsMeta (TypedHashFromRoot r) \<noteq> None)))"

subsection \<open>Write logs\<close>

text \<open>
  \<open>GetWriteLog\<close> searches from the end root towards the start root, breadth first,
  over the write logs stored at the end root's version. An item of the queue is a
  root reached, its depth and the keys and roots of the write logs on the way. The
  iterator streaming the write logs of the path found is built by
  \<open>api.ReviveHashedDBWriteLogs\<close> from the item that closes the path; the item stands
  for it here. The context is taken as never cancelled.
\<close>

record wlItem =
  depth :: "8 word"
  endRootHash :: typedHash
  logKeys :: "key list"
  logRoots :: "typedHash list"

definition maxAllowedHops :: "8 word" where
  "maxAllowedHops = 2"

datatype scanResult = PathFound wlItem | NoPath "wlItem list" | BadIterator

fun scanWriteLogs :: "typedHash \<Rightarrow> wlItem \<Rightarrow> key list \<Rightarrow> wlItem list \<Rightarrow> scanResult" where
  "scanWriteLogs startRootHash curItem [] queue = NoPath queue"
| "scanWriteLogs startRootHash curItem (k # ks) queue =
     (case k of
        WriteLogKey decVersion decEndRootHash decStartRootHash \<Rightarrow>
          (let nextItem =
                 \<lparr>depth = depth curItem + 1,
                  endRootHash = decStartRootHash,
                  logKeys = logKeys curItem @ [k],
                  logRoots = logRoots curItem @ [endRootHash curItem]\<rparr>
           in if endRootHash nextItem = startRootHash then PathFound nextItem
              else if depth nextItem < maxAllowedHops then
                scanWriteLogs startRootHash curItem ks (queue @ [nextItem])
              else scanWriteLogs startRootHash curItem ks queue)
      | _ \<Rightarrow> BadIterator)"

text \<open>
  The search ends: an item enters the queue only below the hop limit, and an
  iterator yields no more keys than the store and the transaction hold. The weight of
  a queue counts, for each item, the items that can still come from it.
\<close>

definition hopsLeft :: "8 word \<Rightarrow> nat" where
  "hopsLeft d = (if d = 255 then 2 else if d = 0 then 1 else 0)"

definition queueWeight :: "nat \<Rightarrow> wlItem list \<Rightarrow> nat" where
  "queueWeight n q = sum_list (map (\<lambda>i. (n + 1) ^ hopsLeft (depth i)) q)"

lemma depth_next: "(d :: 8 word) + 1 < 2 \<Longrightarrow> hopsLeft d = Suc (hopsLeft (d + 1))"
proof -
  assume a: "d + 1 < 2"
  have "unat (d + 1) < 2" using a by (simp add: word_less_nat_alt)
  then have "unat (d + 1) = 0 \<or> unat (d + 1) = 1" by arith
  then have "d + 1 = 0 \<or> d + 1 = 1" by (auto simp: word_unat_eq_iff)
  then have "d = 255 \<or> d = 0"
  proof
    assume "d + 1 = 0"
    then have "d = 0 - 1" by (metis add_diff_cancel_right')
    then show ?thesis by simp
  next
    assume "d + 1 = 1"
    then show ?thesis by simp
  qed
  then show ?thesis by (auto simp: hopsLeft_def)
qed

lemma length_insertKey: "length (insertKey le k xs) = Suc (length xs)"
  by (induction xs) auto

lemma length_sortKeys: "length (sortKeys le xs) = length xs"
  by (induction xs) (auto simp: length_insertKey)

lemma length_txIterate: "length (txIterate P s tx pre) \<le> length (pendingWrites tx) + length s"
proof -
  have "length (txIterate P s tx pre) \<le> length (remdups (map fst (pendingWrites tx) @ map fst s))"
    unfolding txIterate_def length_sortKeys by (rule length_filter_le)
  also have "\<dots> \<le> length (map fst (pendingWrites tx) @ map fst s)" by (rule length_remdups_leq)
  finally show ?thesis by simp
qed

lemma scan_weight:
  "scanWriteLogs st cur ks q = NoPath q' \<Longrightarrow>
    queueWeight n q' \<le> queueWeight n q + length ks * (n + 1) ^ (hopsLeft (depth cur) - 1)
    \<and> (hopsLeft (depth cur) = 0 \<longrightarrow> q' = q)"
proof (induction ks arbitrary: q)
  case Nil
  then show ?case by simp
next
  case (Cons k ks)
  show ?case
  proof (cases k)
    case (WriteLogKey dv de ds)
    let ?next = "\<lparr>depth = depth cur + 1, endRootHash = ds,
                  logKeys = logKeys cur @ [k], logRoots = logRoots cur @ [endRootHash cur]\<rparr>"
    from Cons.prems WriteLogKey have ne: "ds \<noteq> st"
      by (auto simp: Let_def split: if_splits)
    show ?thesis
    proof (cases "depth cur + 1 < maxAllowedHops")
      case True
      with Cons.prems WriteLogKey ne have "scanWriteLogs st cur ks (q @ [?next]) = NoPath q'"
        by (simp add: Let_def)
      from Cons.IH[OF this]
      have ih: "queueWeight n q' \<le> queueWeight n (q @ [?next])
                  + length ks * (n + 1) ^ (hopsLeft (depth cur) - 1)" by simp
      from True have h: "hopsLeft (depth cur) = Suc (hopsLeft (depth cur + 1))"
        by (simp add: maxAllowedHops_def depth_next)
      have "queueWeight n (q @ [?next]) = queueWeight n q + (n + 1) ^ (hopsLeft (depth cur) - 1)"
        using h by (simp add: queueWeight_def)
      with ih h show ?thesis by simp
    next
      case False
      with Cons.prems WriteLogKey ne have "scanWriteLogs st cur ks q = NoPath q'"
        by (simp add: Let_def)
      from Cons.IH[OF this] show ?thesis by auto
    qed
  qed (use Cons.prems in auto)
qed

function walkQueue ::
  "'n params \<Rightarrow> store \<Rightarrow> txn \<Rightarrow> version \<Rightarrow> typedHash \<Rightarrow> wlItem list \<Rightarrow> error + wlItem" where
  "walkQueue P s tx v startRootHash [] = Inl ErrWriteLogNotFound"
| "walkQueue P s tx v startRootHash (curItem # queue) =
     (case scanWriteLogs startRootHash curItem
             (txIterate P s tx (writeLogPrefix2 v (endRootHash curItem))) queue of
        PathFound nextItem \<Rightarrow> Inr nextItem
      | BadIterator \<Rightarrow> Inl (Panic ''mkvs/badger: bad iterator'')
      | NoPath queue' \<Rightarrow> walkQueue P s tx v startRootHash queue')"
  by pat_completeness auto
termination
proof (relation "measure (\<lambda>(P, s, tx, v, st, q). queueWeight (length (pendingWrites tx) + length s) q)")
  show "wf (measure (\<lambda>(P :: 'n params, s, tx, v :: version, st :: typedHash, q). queueWeight (length (pendingWrites tx) + length s) q))" by simp
next
  fix P :: "'n params" and s tx and v :: version and startRootHash curItem queue x2
  assume a: "scanWriteLogs startRootHash curItem
             (txIterate P s tx (writeLogPrefix2 v (endRootHash curItem))) queue = NoPath x2"
  let ?n = "length (pendingWrites tx) + length s"
  let ?ks = "txIterate P s tx (writeLogPrefix2 v (endRootHash curItem))"
  let ?h = "hopsLeft (depth curItem)"
  from scan_weight[OF a, of ?n]
  have w: "queueWeight ?n x2 \<le> queueWeight ?n queue + length ?ks * (?n + 1) ^ (?h - 1)"
    and z: "?h = 0 \<longrightarrow> x2 = queue" by auto
  have l: "length ?ks \<le> ?n" by (rule length_txIterate)
  have "queueWeight ?n x2 < (?n + 1) ^ ?h + queueWeight ?n queue"
  proof (cases "?h")
    case 0
    then show ?thesis using z by simp
  next
    case (Suc m)
    have "length ?ks * (?n + 1) ^ m \<le> ?n * (?n + 1) ^ m" using l by simp
    also have "\<dots> < (?n + 1) * (?n + 1) ^ m" by simp
    finally show ?thesis using w Suc by simp
  qed
  then show "((P, s, tx, v, startRootHash, x2), (P, s, tx, v, startRootHash, curItem # queue))
        \<in> measure (\<lambda>(P, s, tx, v, st, q). queueWeight (length (pendingWrites tx) + length s) q)"
    by (simp add: queueWeight_def)
qed

definition GetWriteLog :: "'n params \<Rightarrow> badgerNodeDB \<Rightarrow> root \<Rightarrow> root \<Rightarrow> error + wlItem" where
  "GetWriteLog P d startRoot endRoot =
     (if discardWriteLogs d then Inl ErrWriteLogNotFound
      else if \<not> Follows P endRoot startRoot then Inl ErrRootMustFollowOld
      else
        (case sanityCheckNamespace d (Namespace startRoot) of
           Some err \<Rightarrow> Inl err
         | None \<Rightarrow>
             if Version endRoot < getEarliestVersion (meta d) then Inl ErrWriteLogNotFound
             else
               (let tx = NewTransactionAt (versionToTs P (Version endRoot))
                in case checkRoot (db d) tx endRoot of
                     Some err \<Rightarrow> Inl err
                   | None \<Rightarrow>
                       walkQueue P (db d) tx (Version endRoot) (TypedHashFromRoot startRoot)
                         [\<lparr>depth = 0, endRootHash = TypedHashFromRoot endRoot,
                           logKeys = [], logRoots = []\<rparr>])))"

subsection \<open>Finalize\<close>

text \<open>
  The Go maps used as sets (\<open>finalizedRoots\<close>, \<open>maybeLoneNodes\<close>, \<open>notLoneNodes\<close>) are
  lists of their keys. The first loop of \<open>Finalize\<close> collects the roots given.
\<close>

fun collectRoots :: "version \<Rightarrow> root list \<Rightarrow> typedHash list \<Rightarrow> error + typedHash list" where
  "collectRoots v [] finalizedRoots = Inr finalizedRoots"
| "collectRoots v (r # rest) finalizedRoots =
     (if Version r \<noteq> v then
        Inl (Errorf ''mkvs/badger: roots to finalize don't have matching versions'')
      else collectRoots v rest (List.insert (TypedHashFromRoot r) finalizedRoots))"

text \<open>
  The closure loop: one pass over the roots metadata marks every root that has a
  finalized derived root; passes repeat until one marks nothing.
\<close>

fun markDerived ::
  "typedHash \<Rightarrow> typedHash list \<Rightarrow> typedHash list \<times> bool \<Rightarrow> typedHash list \<times> bool" where
  "markDerived rootHash [] st = st"
| "markDerived rootHash (nextRoot # rest) (finalizedRoots, updated) =
     (if rootHash \<notin> set finalizedRoots \<and> nextRoot \<in> set finalizedRoots then
        markDerived rootHash rest (rootHash # finalizedRoots, True)
      else markDerived rootHash rest (finalizedRoots, updated))"

fun closurePass :: "rootsMetadata \<Rightarrow> typedHash list \<times> bool \<Rightarrow> typedHash list \<times> bool" where
  "closurePass [] st = st"
| "closurePass ((rootHash, derivedRoots) # rest) st =
     (if derivedRoots = [] then closurePass rest st
      else closurePass rest (markDerived rootHash derivedRoots st))"

lemma markDerived_grows:
  "markDerived r ds (f, u) = (f', u') \<Longrightarrow>
     set f \<subseteq> set f' \<and> set f' \<subseteq> insert r (set f) \<and> (u' \<longrightarrow> u \<or> (r \<in> set f' \<and> r \<notin> set f))"
proof (induction ds arbitrary: f u)
  case Nil
  then show ?case by auto
next
  case (Cons d ds)
  show ?case
  proof (cases "r \<notin> set f \<and> d \<in> set f")
    case True
    with Cons.prems have "markDerived r ds (r # f, True) = (f', u')" by simp
    from Cons.IH[OF this] True show ?thesis by auto
  next
    case False
    with Cons.prems have "markDerived r ds (f, u) = (f', u')" by auto
    from Cons.IH[OF this] show ?thesis by auto
  qed
qed

lemma closurePass_grows:
  "closurePass rm (f, u) = (f', u') \<Longrightarrow>
     set f \<subseteq> set f' \<and> set f' \<subseteq> set f \<union> fst ` set rm
     \<and> (u' \<longrightarrow> u \<or> (\<exists>r \<in> fst ` set rm. r \<in> set f' \<and> r \<notin> set f))"
proof (induction rm arbitrary: f u)
  case Nil
  then show ?case by auto
next
  case (Cons e rm)
  obtain r ds where e: "e = (r, ds)" by (cases e)
  show ?case
  proof (cases "ds = []")
    case True
    with Cons.prems e have "closurePass rm (f, u) = (f', u')" by simp
    from Cons.IH[OF this] show ?thesis by auto
  next
    case False
    obtain f1 u1 where m: "markDerived r ds (f, u) = (f1, u1)" by (cases "markDerived r ds (f, u)")
    with Cons.prems e False have "closurePass rm (f1, u1) = (f', u')" by simp
    from Cons.IH[OF this] markDerived_grows[OF m] e show ?thesis by auto
  qed
qed

function closeFinalized :: "rootsMetadata \<Rightarrow> typedHash list \<Rightarrow> typedHash list" where
  "closeFinalized rootsMeta finalizedRoots =
     (case closurePass rootsMeta (finalizedRoots, False) of
        (finalizedRoots', updated) \<Rightarrow>
          if updated then closeFinalized rootsMeta finalizedRoots' else finalizedRoots')"
  by pat_completeness auto
termination
proof (relation "measure (\<lambda>(rm, f). card (fst ` set rm - set f))")
  show "wf (measure (\<lambda>(rm :: rootsMetadata, f). card (fst ` set rm - set f)))" by simp
next
  fix rootsMeta :: rootsMetadata and finalizedRoots x y
  assume a: "(x, y) = closurePass rootsMeta (finalizedRoots, False)" and "y"
  then have p: "closurePass rootsMeta (finalizedRoots, False) = (x, True)" by simp
  from closurePass_grows[OF p] have sub: "set finalizedRoots \<subseteq> set x"
    and ex: "\<exists>r \<in> fst ` set rootsMeta. r \<in> set x \<and> r \<notin> set finalizedRoots" by simp_all
  from ex obtain r where r: "r \<in> fst ` set rootsMeta" "r \<in> set x" "r \<notin> set finalizedRoots"
    by blast
  have "fst ` set rootsMeta - set x \<subset> fst ` set rootsMeta - set finalizedRoots"
    using sub r by auto
  then have "card (fst ` set rootsMeta - set x) < card (fst ` set rootsMeta - set finalizedRoots)"
    by (intro psubset_card_mono) auto
  then show "((rootsMeta, x), (rootsMeta, finalizedRoots))
      \<in> measure (\<lambda>(rm, f). card (fst ` set rm - set f))" by simp
qed

declare closeFinalized.simps [simp del]

text \<open>
  The loop over the roots of the version. Its state is what the loop changes: the two
  sets of node hashes, the roots metadata, the batch of removals at the version
  timestamp and the transaction. A root without its record of updated nodes is a
  panic.
\<close>

record finalizeState =
  maybeLoneNodes :: "hash list"
  notLoneNodes :: "hash list"
  rootsMetaRoots :: rootsMetadata
  rootsChanged :: bool
  versionBatch :: writeBatch
  finalizeTx :: txn

fun markFinalized :: "updatedNode list \<Rightarrow> finalizeState \<Rightarrow> finalizeState" where
  "markFinalized [] st = st"
| "markFinalized (n # rest) st =
     (if Removed n then
        markFinalized rest (st\<lparr>maybeLoneNodes := List.insert (nodeHash n) (maybeLoneNodes st)\<rparr>)
      else
        markFinalized rest (st\<lparr>notLoneNodes := List.insert (nodeHash n) (notLoneNodes st)\<rparr>))"

fun markNotFinalized :: "updatedNode list \<Rightarrow> finalizeState \<Rightarrow> finalizeState" where
  "markNotFinalized [] st = st"
| "markNotFinalized (n # rest) st =
     (if \<not> Removed n then
        markNotFinalized rest (st\<lparr>maybeLoneNodes := List.insert (nodeHash n) (maybeLoneNodes st)\<rparr>)
      else markNotFinalized rest st)"

fun deleteKeys :: "key list \<Rightarrow> writeBatch \<Rightarrow> writeBatch" where
  "deleteKeys [] batch = batch"
| "deleteKeys (k # ks) batch = deleteKeys ks (batchDelete batch k)"

definition deleteRoot :: "typedHash \<Rightarrow> rootsMetadata \<Rightarrow> rootsMetadata" where
  "deleteRoot rootHash rm = filter (\<lambda>e. fst e \<noteq> rootHash) rm"

text \<open>The body of the loop, for one root of the version.\<close>

definition finalizeRoot ::
  "'n params \<Rightarrow> store \<Rightarrow> bool \<Rightarrow> version \<Rightarrow> typedHash list \<Rightarrow> typedHash \<Rightarrow>
     finalizeState \<Rightarrow> error + finalizeState" where
  "finalizeRoot P s discard v finalizedRoots rootHash st =
     (let rootUpdatedNodesKey = RootUpdatedNodesKey v rootHash
      in case txGet s (finalizeTx st) rootUpdatedNodesKey of
           None \<Rightarrow> Inl (Panic ''mkvs/badger: corrupted/missing root updated nodes index'')
         | Some (t, VUpdatedNodes updatedNodes) \<Rightarrow>
             (let st1 =
                (if rootHash \<in> set finalizedRoots then markFinalized updatedNodes st
                 else
                   (let st2 = markNotFinalized updatedNodes st;
                        st3 = st2\<lparr>rootsMetaRoots := deleteRoot rootHash (rootsMetaRoots st2),
                                  rootsChanged := True\<rparr>
                    in if \<not> discard then
                         st3\<lparr>versionBatch :=
                               deleteKeys (txIterate P s (finalizeTx st3) (writeLogPrefix2 v rootHash))
                                 (versionBatch st3)\<rparr>
                       else st3))
              in Inr (st1\<lparr>finalizeTx := txDelete (finalizeTx st1) rootUpdatedNodesKey\<rparr>))
         | Some (t, other) \<Rightarrow> Inl (Panic ''mkvs/badger: corrupted root updated nodes index''))"

fun finalizeRoots ::
  "'n params \<Rightarrow> store \<Rightarrow> bool \<Rightarrow> version \<Rightarrow> typedHash list \<Rightarrow> typedHash list \<Rightarrow>
     finalizeState \<Rightarrow> error + finalizeState" where
  "finalizeRoots P s discard v finalizedRoots [] st = Inr st"
| "finalizeRoots P s discard v finalizedRoots (rootHash # rest) st =
     (case finalizeRoot P s discard v finalizedRoots rootHash st of
        Inl err \<Rightarrow> Inl err
      | Inr st' \<Rightarrow> finalizeRoots P s discard v finalizedRoots rest st')"

fun cleanLoneNodes :: "hash list \<Rightarrow> hash list \<Rightarrow> writeBatch \<Rightarrow> writeBatch" where
  "cleanLoneNodes [] notLone batch = batch"
| "cleanLoneNodes (h # rest) notLone batch =
     (if h \<in> set notLone then cleanLoneNodes rest notLone batch
      else cleanLoneNodes rest notLone (batchDelete batch (NodeKey h)))"

text \<open>
  The end of \<open>Finalize\<close>, after the loop over the roots: the lone nodes are deleted at
  the version timestamp, the batch is flushed, and the roots metadata (if changed) and
  the last finalized version are committed at the metadata timestamp. A multipart
  restore in progress is then cleaned up, keeping its nodes.
\<close>

definition finalizeCommit ::
  "'n params \<Rightarrow> badgerNodeDB \<Rightarrow> version \<Rightarrow> finalizeState \<Rightarrow> error + badgerNodeDB" where
  "finalizeCommit P d v st =
     (let batch = cleanLoneNodes (maybeLoneNodes st) (notLoneNodes st) (versionBatch st);
          s = Flush (db d) batch;
          tx = (if rootsChanged st then rootsMetaSave (rootsMetaRoots st) v (finalizeTx st)
                else finalizeTx st);
          (m, tx) = setLastFinalizedVersion (meta d) tx v;
          s = CommitAt s tx (tsMetadata P);
          d' = d\<lparr>db := s, meta := m\<rparr>
      in if multipartVersion d' \<noteq> multipartVersionNone then cleanMultipartLocked P d' False
         else Inr d')"

text \<open>
  The middle of \<open>Finalize\<close>, once the version may be finalized: the finalized set, its
  closure, the sanity check of the roots, and the loop.
\<close>

definition finalizeVersion ::
  "'n params \<Rightarrow> badgerNodeDB \<Rightarrow> version \<Rightarrow> root list \<Rightarrow> error + badgerNodeDB" where
  "finalizeVersion P d v roots =
     (let versionBatch0 = NewWriteBatchAt (versionToTs P v);
          tx = NewTransactionAt (versionToTs P v)
      in case collectRoots v roots [] of
           Inl err \<Rightarrow> Inl err
         | Inr finalizedRoots0 \<Rightarrow>
             (case loadRootsMetadata (db d) tx v of
                Inl err \<Rightarrow> Inl err
              | Inr rootsMeta \<Rightarrow>
                  (let finalizedRoots = closeFinalized rootsMeta finalizedRoots0
                   in if list_ex (\<lambda>iroot. map_of rootsMeta iroot = None \<and> \<not> IsEmpty (snd iroot))
                           finalizedRoots
                      then Inl ErrRootNotFound
                      else
                        (case finalizeRoots P (db d) (discardWriteLogs d) v finalizedRoots
                                (map fst rootsMeta)
                                \<lparr>maybeLoneNodes = [], notLoneNodes = [],
                                 rootsMetaRoots = rootsMeta, rootsChanged = False,
                                 versionBatch = versionBatch0, finalizeTx = tx\<rparr> of
                           Inl err \<Rightarrow> Inl err
                         | Inr st \<Rightarrow> finalizeCommit P d v st))))"

definition Finalize :: "'n params \<Rightarrow> badgerNodeDB \<Rightarrow> root list \<Rightarrow> error + badgerNodeDB" where
  "Finalize P d roots =
     (if readOnly d then Inl ErrReadOnly
      else
        (case roots of
           [] \<Rightarrow> Inl (Errorf ''mkvs/badger: need at least one root to finalize'')
         | r0 # others \<Rightarrow>
             (let v = Version r0;
                  (lastFinalizedVersion, exists) = getLastFinalizedVersion (meta d)
              in if multipartVersion d \<noteq> multipartVersionNone \<and> multipartVersion d \<noteq> v then
                   Inl ErrInvalidMultipartVersion
                 else if multipartVersion d = multipartVersionNone \<and> v > 0 \<and> exists
                           \<and> lastFinalizedVersion < v - 1 then Inl ErrNotFinalized
                 else if exists \<and> v \<le> lastFinalizedVersion then Inl ErrAlreadyFinalized
                 else finalizeVersion P d v roots)))"

subsection \<open>Prune\<close>

text \<open>
  The visitor of \<open>Prune\<close>, run over the nodes that \<open>Visit\<close> hands it: a node first
  written at the pruned version is deleted; a node that cannot be read stops the visit
  with the error of the read.
\<close>

fun pruneVisit ::
  "'n params \<Rightarrow> store \<Rightarrow> txn \<Rightarrow> version \<Rightarrow> hash list \<Rightarrow> writeBatch \<Rightarrow> error + writeBatch" where
  "pruneVisit P s tx v [] batch = Inr batch"
| "pruneVisit P s tx v (h # rest) batch =
     (case txGet s tx (NodeKey h) of
        None \<Rightarrow> Inl ErrKeyNotFound
      | Some (itemVersion, item) \<Rightarrow>
          pruneVisit P s tx v rest
            (if tsToVersion P itemVersion = v then batchDelete batch (NodeKey h) else batch))"

fun pruneRoots ::
  "'n params \<Rightarrow> badgerNodeDB \<Rightarrow> txn \<Rightarrow> version \<Rightarrow> rootsMetadata \<Rightarrow> writeBatch \<Rightarrow>
     error + writeBatch" where
  "pruneRoots P d tx v [] batch = Inr batch"
| "pruneRoots P d tx v ((rootHash, derivedRoots) # rest) batch =
     (if length derivedRoots > 0 then pruneRoots P d tx v rest batch
      else
        (let r = \<lparr>Namespace = namespace d, Version = v,
                  Type = fst rootHash, Hash = snd rootHash\<rparr>;
             (visited, err) = Visit P d r
         in case pruneVisit P (db d) tx v visited batch of
              Inl innerErr \<Rightarrow> Inl innerErr
            | Inr batch \<Rightarrow>
                (case err of
                   Some e \<Rightarrow> Inl e
                 | None \<Rightarrow> pruneRoots P d tx v rest (batchDelete batch (RootNodeKey rootHash)))))"

definition Prune :: "'n params \<Rightarrow> badgerNodeDB \<Rightarrow> version \<Rightarrow> error + badgerNodeDB" where
  "Prune P d v =
     (if readOnly d then Inl ErrReadOnly
      else if multipartVersion d \<noteq> multipartVersionNone then Inl ErrMultipartInProgress
      else
        (let (lastFinalizedVersion, exists) = getLastFinalizedVersion (meta d)
         in if \<not> exists \<or> lastFinalizedVersion < v then Inl ErrNotFinalized
            else if v \<noteq> getEarliestVersion (meta d) then Inl ErrNotEarliest
            else if v = lastFinalizedVersion then Inl ErrCannotPruneLatestVersion
            else
              (let batch = NewWriteBatchAt (versionToTs P v);
                   tx = NewTransactionAt (versionToTs P v)
               in case loadRootsMetadata (db d) tx v of
                    Inl err \<Rightarrow> Inl err
                  | Inr rootsMeta \<Rightarrow>
                      (case pruneRoots P d tx v rootsMeta batch of
                         Inl err \<Rightarrow> Inl err
                       | Inr batch \<Rightarrow>
                           (let tx = txDelete tx (RootsMetadataKey v);
                                batch =
                                  (if \<not> discardWriteLogs d then
                                     (let wtx = NewTransactionAt (versionToTs P v)
                                      in deleteKeys (txIterate P (db d) wtx (writeLogPrefix1 v)) batch)
                                   else batch);
                                s = Flush (db d) batch;
                                (m, tx) = setEarliestVersion (meta d) tx (v + 1);
                                s = CommitAt s tx (tsMetadata P)
                            in Inr (d\<lparr>db := s, meta := m\<rparr>))))))"

subsection \<open>Batches\<close>

text \<open>
  A batch holds its write batch at the version timestamp and, during a multipart
  restore, the write batch of the restore log and a read transaction. Go's nil write
  log and annotations are \<open>None\<close>.
\<close>

record badgerBatch =
  bat :: writeBatch
  multipartNodes :: "writeBatch option"
  readTxn :: "txn option"
  oldRoot :: root
  chunk :: bool
  writeLog :: "writeLog option"
  annotations :: "annotations option"
  updatedNodes :: "updatedNode list"

definition NewBatch :: "'n params \<Rightarrow> badgerNodeDB \<Rightarrow> root \<Rightarrow> version \<Rightarrow> bool \<Rightarrow> error + badgerBatch" where
  "NewBatch P d old v chnk =
     (if readOnly d then Inl ErrReadOnly
      else if multipartVersion d \<noteq> multipartVersionNone \<and> multipartVersion d \<noteq> v then
        Inl ErrInvalidMultipartVersion
      else if chnk \<noteq> (multipartVersion d \<noteq> multipartVersionNone) then Inl ErrMultipartInProgress
      else
        (let logBatch = (if multipartVersion d \<noteq> multipartVersionNone
                         then Some (NewWriteBatchAt (tsMetadata P)) else None);
             rtx = (if multipartVersion d \<noteq> multipartVersionNone
                    then Some (NewTransactionAt (versionToTs P v)) else None)
         in Inr \<lparr>bat = NewWriteBatchAt (versionToTs P v), multipartNodes = logBatch,
                 readTxn = rtx, oldRoot = old, chunk = chnk,
                 writeLog = None, annotations = None, updatedNodes = []\<rparr>))"

text \<open>The operations of a batch give the error, if any, and the batch after them.\<close>

definition PutWriteLog ::
  "badgerNodeDB \<Rightarrow> badgerBatch \<Rightarrow> writeLog option \<Rightarrow> annotations option \<Rightarrow> error option \<times> badgerBatch" where
  "PutWriteLog d ba wl ann =
     (if chunk ba then (Some (Errorf ''mkvs/badger: cannot put write log in chunk mode''), ba)
      else if discardWriteLogs d then (None, ba)
      else (None, ba\<lparr>writeLog := wl, annotations := ann\<rparr>))"

definition RemoveNodes :: "badgerBatch \<Rightarrow> pointer list \<Rightarrow> error option \<times> badgerBatch" where
  "RemoveNodes ba nodes =
     (if chunk ba then (Some (Errorf ''mkvs/badger: cannot remove nodes in chunk mode''), ba)
      else
        (None, ba\<lparr>updatedNodes :=
                     updatedNodes ba @ map (\<lambda>ptr. \<lparr>Removed = True, nodeHash = ptrHash ptr\<rparr>) nodes\<rparr>))"

text \<open>
  \<open>PutNode\<close>, given the hash of the node of the pointer and its serialization
  (\<open>MarshalBinary\<close> is taken to succeed).
\<close>

definition PutNode :: "badgerNodeDB \<Rightarrow> badgerBatch \<Rightarrow> hash \<Rightarrow> bytes \<Rightarrow> error option \<times> badgerBatch" where
  "PutNode d ba h data =
     (let ba1 = ba\<lparr>updatedNodes := updatedNodes ba @ [\<lparr>Removed = False, nodeHash = h\<rparr>]\<rparr>;
          nodeKey = NodeKey h;
          ba2 =
            (case (multipartNodes ba1, readTxn ba1) of
               (Some mp, Some rtx) \<Rightarrow>
                 (case txGet (db d) rtx nodeKey of
                    None \<Rightarrow>
                      (let th = TypedHashFromParts RootTypeInvalid h
                       in ba1\<lparr>multipartNodes :=
                                  Some (batchSet mp (MultipartRestoreNodeLogKey th) VEmpty)\<rparr>)
                  | Some item \<Rightarrow> ba1)
             | _ \<Rightarrow> ba1)
      in (None, ba2\<lparr>bat := batchSet (bat ba2) nodeKey (VNode data)\<rparr>))"

definition Reset :: "badgerBatch \<Rightarrow> badgerBatch" where
  "Reset ba =
     ba\<lparr>bat := Cancel (bat ba),
        multipartNodes := map_option Cancel (multipartNodes ba),
        writeLog := None, annotations := None, updatedNodes := []\<rparr>"

fun setRoots :: "typedHash \<Rightarrow> typedHash list \<Rightarrow> rootsMetadata \<Rightarrow> rootsMetadata" where
  "setRoots k v [] = [(k, v)]"
| "setRoots k v (e # rest) = (if fst e = k then (k, v) # rest else e # setRoots k v rest)"

text \<open>
  Modelled from the spec: \<open>BaseBatch.Commit\<close> (not among the sources) ends a commit
  and gives no error.
\<close>

definition BaseBatchCommit :: "root \<Rightarrow> error option" where
  "BaseBatchCommit r = None"

text \<open>
  The part of \<open>Commit\<close> after the root is registered, not in chunk mode: the link from
  the old root, the updated nodes and the write log.
\<close>

definition commitLinks ::
  "'n params \<Rightarrow> badgerNodeDB \<Rightarrow> badgerBatch \<Rightarrow> root \<Rightarrow> txn \<Rightarrow> error + (badgerBatch \<times> txn)" where
  "commitLinks P d ba r tx =
     (let rootHash = TypedHashFromRoot r;
          oldRootHash = TypedHashFromRoot (oldRoot ba);
          linked =
            (if \<not> IsEmpty (Hash (oldRoot ba)) then
               (if Version (oldRoot ba) < getEarliestVersion (meta d)
                     \<and> Version (oldRoot ba) \<noteq> Version r then Inl ErrPreviousVersionMismatch
                else
                  (case loadRootsMetadata (db d) tx (Version (oldRoot ba)) of
                     Inl err \<Rightarrow> Inl err
                   | Inr oldRootsMeta \<Rightarrow>
                       (case map_of oldRootsMeta oldRootHash of
                          None \<Rightarrow> Inl ErrRootNotFound
                        | Some derivedRoots \<Rightarrow>
                            Inr (rootsMetaSave
                                   (setRoots oldRootHash (derivedRoots @ [rootHash]) oldRootsMeta)
                                   (Version (oldRoot ba)) tx))))
             else Inr tx)
      in case linked of
           Inl err \<Rightarrow> Inl err
         | Inr tx \<Rightarrow>
             (let tx = txSet tx (RootUpdatedNodesKey (Version r) rootHash)
                         (VUpdatedNodes (updatedNodes ba))
              in case (writeLog ba, annotations ba) of
                   (Some wl, Some ann) \<Rightarrow>
                     Inr (ba\<lparr>bat := batchSet (bat ba)
                                        (WriteLogKey (Version r) rootHash oldRootHash)
                                        (VWriteLog wl ann)\<rparr>, tx)
                 | _ \<Rightarrow> Inr (ba, tx)))"

text \<open>
  The end of \<open>Commit\<close>: the batch of the restore log and the batch of the version are
  flushed, then the metadata transaction is committed.
\<close>

definition commitFlush ::
  "'n params \<Rightarrow> badgerNodeDB \<Rightarrow> badgerBatch \<Rightarrow> txn \<Rightarrow> root \<Rightarrow>
     error option \<times> badgerNodeDB \<times> badgerBatch" where
  "commitFlush P d ba tx r =
     (let s = (case multipartNodes ba of Some mp \<Rightarrow> Flush (db d) mp | None \<Rightarrow> db d);
          s = Flush s (bat ba);
          s = CommitAt s tx (tsMetadata P);
          ba = ba\<lparr>bat := Cancel (bat ba),
                  multipartNodes := map_option Cancel (multipartNodes ba),
                  writeLog := None, annotations := None, updatedNodes := []\<rparr>
      in (BaseBatchCommit r, d\<lparr>db := s\<rparr>, ba))"

text \<open>
  The middle of \<open>Commit\<close>, with the roots metadata of the version loaded. In the roots
  metadata written by \<open>Commit\<close> the list of derived roots of a root is never nil, so
  a root has a non-nil entry exactly when it is a key of the map.
\<close>

definition commitRoot ::
  "'n params \<Rightarrow> badgerNodeDB \<Rightarrow> badgerBatch \<Rightarrow> root \<Rightarrow> rootsMetadata \<Rightarrow> txn \<Rightarrow>
     error option \<times> badgerNodeDB \<times> badgerBatch" where
  "commitRoot P d ba0 r rootsMeta tx0 =
     (let rootHash = TypedHashFromRoot r;
          ba1 = ba0\<lparr>bat := batchSet (bat ba0) (RootNodeKey rootHash) VEmpty\<rparr>;
          ba2 = ba1\<lparr>multipartNodes :=
                      map_option (\<lambda>b. batchSet b (MultipartRestoreNodeLogKey rootHash) VEmpty)
                        (multipartNodes ba1)\<rparr>
      in if map_of rootsMeta rootHash \<noteq> None \<and> \<not> chunk ba2 then
           (BaseBatchCommit r, d, Reset ba2)
         else
           (let tx1 =
                  (if map_of rootsMeta rootHash \<noteq> None then tx0
                   else rootsMetaSave (setRoots rootHash [] rootsMeta) (Version r) tx0);
                rest =
                  (if chunk ba2 then
                     Inr (ba2, txSet tx1 (RootUpdatedNodesKey (Version r) rootHash)
                                 (VUpdatedNodes []))
                   else commitLinks P d ba2 r tx1)
            in case rest of
                 Inl err \<Rightarrow> (Some err, d, ba2)
               | Inr (ba3, tx2) \<Rightarrow> commitFlush P d ba3 tx2 r))"

text \<open>\<open>Commit\<close> gives the error, if any, the database and the batch after it.\<close>

definition Commit ::
  "'n params \<Rightarrow> badgerNodeDB \<Rightarrow> badgerBatch \<Rightarrow> root \<Rightarrow> error option \<times> badgerNodeDB \<times> badgerBatch" where
  "Commit P d ba r =
     (if multipartVersion d \<noteq> multipartVersionNone \<and> multipartVersion d \<noteq> Version r then
        (Some ErrInvalidMultipartVersion, d, ba)
      else
        (case sanityCheckNamespace d (Namespace r) of
           Some err \<Rightarrow> (Some err, d, ba)
         | None \<Rightarrow>
             if \<not> Follows P r (oldRoot ba) then (Some ErrRootMustFollowOld, d, ba)
             else
               (let (lastFinalizedVersion, exists) = getLastFinalizedVersion (meta d)
                in if exists \<and> lastFinalizedVersion \<ge> Version r then
                     (Some ErrAlreadyFinalized, d, ba)
                   else
                     (let tx = NewTransactionAt (versionToTs P (Version r))
                      in case loadRootsMetadata (db d) tx (Version r) of
                           Inl err \<Rightarrow> (Some err, d, ba)
                         | Inr rootsMeta \<Rightarrow> commitRoot P d ba r rootsMeta tx))))"

text \<open>
  The lineage of the roots of a version, as the roots metadata records it: an edge
  from a root to each of its derived roots.
\<close>

definition derivedEdges :: "rootsMetadata \<Rightarrow> (typedHash \<times> typedHash) set" where
  "derivedEdges rm = {(parent, child). \<exists>derivedRoots. (parent, derivedRoots) \<in> set rm
                                          \<and> child \<in> set derivedRoots}"





text \<open>
  What \<open>Finalize\<close> reads of a version, for the statement of what it deletes: the
  updated nodes recorded for a root, and the two sets of node hashes taken over the
  roots \<open>rs\<close> of the version with the finalized roots \<open>fin\<close>. A hash is in
  \<open>notLoneSet\<close> when a finalized root records it as added; it is in \<open>maybeLoneSet\<close>
  when a finalized root records it as removed or a root that is not finalized
  records it as added.
\<close>

definition storedUpdatedNodes :: "store \<Rightarrow> ts \<Rightarrow> version \<Rightarrow> typedHash \<Rightarrow> updatedNode list" where
  "storedUpdatedNodes s t v r =
     (case dbGet s t (RootUpdatedNodesKey v r) of
        Some (t', VUpdatedNodes ns) \<Rightarrow> ns
      | _ \<Rightarrow> [])"

definition notLoneSet :: "store \<Rightarrow> ts \<Rightarrow> version \<Rightarrow> typedHash set \<Rightarrow> typedHash set \<Rightarrow> hash set" where
  "notLoneSet s t v rs fin =
     {h. \<exists>r n. r \<in> rs \<and> r \<in> fin \<and> n \<in> set (storedUpdatedNodes s t v r)
           \<and> \<not> Removed n \<and> nodeHash n = h}"

definition maybeLoneSet :: "store \<Rightarrow> ts \<Rightarrow> version \<Rightarrow> typedHash set \<Rightarrow> typedHash set \<Rightarrow> hash set" where
  "maybeLoneSet s t v rs fin =
     {h. \<exists>r n. r \<in> rs \<and> n \<in> set (storedUpdatedNodes s t v r)
           \<and> (r \<in> fin) = Removed n \<and> nodeHash n = h}"

fun isNodeKey :: "key \<Rightarrow> bool" where
  "isNodeKey (NodeKey h) = True"
| "isNodeKey k = False"

text \<open>
  A list of writes whose writes to node keys are exactly tombstones at timestamp \<open>t\<close>
  for the hashes in \<open>H\<close>.
\<close>

definition onlyNodeDeletes :: "store \<Rightarrow> ts \<Rightarrow> hash set \<Rightarrow> bool" where
  "onlyNodeDeletes W t H =
     ((\<forall>e \<in> set W. isNodeKey (fst e) \<longrightarrow> e \<in> (\<lambda>h. (NodeKey h, t, None)) ` H)
      \<and> (\<forall>h \<in> H. (NodeKey h, t, None) \<in> set W))"

text \<open>
  What holds of the state of the loop of \<open>Finalize\<close> throughout: the transaction
  has only deleted keys, none of them a node key, the batch has written no node key,
  and both are at the timestamp of the version.
\<close>

definition loopInv :: "ts \<Rightarrow> finalizeState \<Rightarrow> bool" where
  "loopInv t st =
     ((\<forall>kw \<in> set (pendingWrites (finalizeTx st)). snd kw = None \<and> \<not> isNodeKey (fst kw))
      \<and> (\<forall>e \<in> set (batchWrites (versionBatch st)). \<not> isNodeKey (fst e))
      \<and> readTs (finalizeTx st) = t \<and> batchTs (versionBatch st) = t)"

section \<open>Examples\<close>

text \<open>
  An instance of the parameters for the examples: metadata at timestamp 1, version
  \<open>v\<close> at timestamp \<open>v + 2\<close>, a root following another when the namespaces are equal
  and the version is the same or the next, nodes that are their own serialization,
  and a visit that finds no node.
\<close>

definition exampleParams :: "bytes params" where
  "exampleParams =
     \<lparr>tsMetadata = 1,
      versionToTs = (\<lambda>v. v + 2),
      tsToVersion = (\<lambda>t. t - 2),
      keyOrder = (\<lambda>a b. True),
      Follows = (\<lambda>r other. Namespace r = Namespace other
                   \<and> (Version r = Version other \<or> Version r = Version other + 1)),
      UnmarshalBinary = (\<lambda>data. Some data),
      Visit = (\<lambda>d r. ([], None))\<rparr>"

definition exampleDB :: "version \<Rightarrow> version option \<Rightarrow> version \<Rightarrow> store \<Rightarrow> badgerNodeDB" where
  "exampleDB earliest lastFinalized multipart s =
     \<lparr>namespace = 7, readOnly = False, discardWriteLogs = False,
      multipartVersion = multipart, db = s,
      meta = \<lparr>metaVersion = 5, metaNamespace = 7, EarliestVersion = earliest,
               LastFinalizedVersion = lastFinalized, MultipartVersion = multipart\<rparr>\<rparr>"

definition exampleRoot :: "version \<Rightarrow> hash \<Rightarrow> root" where
  "exampleRoot v h = \<lparr>Namespace = 7, Version = v, Type = RootTypeState, Hash = h\<rparr>"

text \<open>
  The store of a version 2 with two sibling roots committed on it, before it is
  finalized: root \<open>101\<close> with node \<open>31\<close>, and root \<open>102\<close> with nodes \<open>31\<close> and \<open>32\<close>
  and a write log from root \<open>100\<close>.
\<close>

definition siblingStore :: store where
  "siblingStore =
     [(RootsMetadataKey 2, 1,
         Some (VRootsMetadata [((RootTypeState, 101), []), ((RootTypeState, 102), [])])),
      (RootUpdatedNodesKey 2 (RootTypeState, 102), 1,
         Some (VUpdatedNodes [\<lparr>Removed = False, nodeHash = 31\<rparr>,
                              \<lparr>Removed = False, nodeHash = 32\<rparr>])),
      (WriteLogKey 2 (RootTypeState, 102) (RootTypeState, 100), 4, Some (VWriteLog [] [])),
      (RootNodeKey (RootTypeState, 102), 4, Some VEmpty),
      (NodeKey 32, 4, Some (VNode [2])),
      (NodeKey 31, 4, Some (VNode [1])),
      (RootUpdatedNodesKey 2 (RootTypeState, 101), 1,
         Some (VUpdatedNodes [\<lparr>Removed = False, nodeHash = 31\<rparr>])),
      (RootNodeKey (RootTypeState, 101), 4, Some VEmpty),
      (NodeKey 31, 4, Some (VNode [1]))]"

text \<open>A lineage for the examples: root 1 has derived root 2, root 2 has derived root 3.\<close>

definition exampleLineage :: rootsMetadata where
  "exampleLineage =
     [((RootTypeState, 1), [(RootTypeState, 2)]),
      ((RootTypeState, 2), [(RootTypeState, 3)]),
      ((RootTypeState, 3), []),
      ((RootTypeState, 4), [])]"


text \<open>
  The batch that \<open>NewBatch\<close> gives for version 2 when no multipart restore is active,
  and the same batch with a node put and a write log stashed.
\<close>

definition exampleBatch :: "root \<Rightarrow> badgerBatch" where
  "exampleBatch old =
     \<lparr>bat = NewWriteBatchAt 4, multipartNodes = None, readTxn = None, oldRoot = old,
      chunk = False, writeLog = None, annotations = None, updatedNodes = []\<rparr>"

definition exampleFilledBatch :: "badgerNodeDB \<Rightarrow> root \<Rightarrow> badgerBatch" where
  "exampleFilledBatch d old =
     snd (PutWriteLog d (snd (PutNode d (exampleBatch old) 31 [1])) (Some [([1], [2])]) (Some [31]))"

text \<open>
  The store after root 101 of version 2 is finalized on \<open>siblingStore\<close>: the writes of
  \<open>Finalize\<close> on top of it.
\<close>

definition finalizedSiblingStore :: store where
  "finalizedSiblingStore =
     [(MetadataKey, 1,
         Some (VMetadata \<lparr>metaVersion = 5, metaNamespace = 7, EarliestVersion = 1,
                          LastFinalizedVersion = Some 2, MultipartVersion = 0\<rparr>)),
      (RootsMetadataKey 2, 1, Some (VRootsMetadata [((RootTypeState, 101), [])])),
      (RootUpdatedNodesKey 2 (RootTypeState, 102), 1, None),
      (RootUpdatedNodesKey 2 (RootTypeState, 101), 1, None),
      (NodeKey 32, 4, None),
      (WriteLogKey 2 (RootTypeState, 102) (RootTypeState, 100), 4, None)]
     @ siblingStore"

section \<open>Lemmas\<close>

lemmas example_defs =
  exampleDB_def exampleRoot_def exampleParams_def siblingStore_def

lemmas finalize_defs =
  Finalize_def finalizeVersion_def finalizeRoot_def finalizeCommit_def multipartVersionNone_def
  getLastFinalizedVersion_def Let_def NewWriteBatchAt_def NewTransactionAt_def
  TypedHashFromRoot_def loadRootsMetadata_def txGet_def dbGet_def IsEmpty_def emptyHash_def
  txIterate_def txDelete_def txSet_def batchDelete_def deleteRoot_def Flush_def
  rootsMetaSave_def setLastFinalizedVersion_def metaSave_def CommitAt_def
  closeFinalized.simps

lemma latest_le: "latest s k t = Some (t', v) \<Longrightarrow> t' \<le> t"
proof (induction s arbitrary: t' v)
  case Nil
  then show ?case by simp
next
  case (Cons e s)
  obtain k1 t1 v1 where e: "e = (k1, t1, v1)" by (cases e)
  show ?case
  proof (cases "k1 = k \<and> t1 \<le> t")
    case False
    with Cons.prems e have "latest s k t = Some (t', v)" by auto
    then show ?thesis by (rule Cons.IH)
  next
    case True
    show ?thesis
    proof (cases "latest s k t")
      case None
      with Cons.prems e True show ?thesis by simp
    next
      case (Some a)
      obtain t2 v2 where a: "a = (t2, v2)" by (cases a)
      from Some a have "t2 \<le> t" by (simp add: Cons.IH)
      with Cons.prems e True Some a show ?thesis by (simp split: if_splits)
    qed
  qed
qed

lemma latest_write_at: "latest ((k, t, v) # s) k t = Some (t, v)"
proof (cases "latest s k t")
  case None
  then show ?thesis by simp
next
  case (Some a)
  obtain t2 v2 where a: "a = (t2, v2)" by (cases a)
  with Some have "t2 \<le> t" by (simp add: latest_le)
  then have "\<not> t < t2" by simp
  with Some a show ?thesis by simp
qed

lemma dbGet_write_at: "dbGet ((k, t, Some v) # s) t k = Some (t, v)"
  by (simp only: dbGet_def latest_write_at option.case prod.case)

lemma txGet_fresh: "txGet s (NewTransactionAt t) k = dbGet s t k"
  by (simp add: txGet_def NewTransactionAt_def)

lemma word_pred_less: "0 < (v :: 64 word) \<Longrightarrow> v - 1 < v"
proof -
  assume a: "0 < v"
  then have nz: "v \<noteq> 0" by auto
  then have "unat (v - 1) = unat v - 1" by (rule unat_minus_one)
  moreover from nz have "unat v \<noteq> 0" by (simp add: unat_eq_0)
  ultimately have "unat (v - 1) < unat v" by arith
  then show ?thesis by (simp only: word_less_nat_alt)
qed

lemma markDerived_within:
  assumes "markDerived r ds (f, u) = (f', u')"
    and "set f \<subseteq> R" and "\<forall>c \<in> set ds. c \<in> R \<longrightarrow> r \<in> R"
  shows "set f' \<subseteq> R"
  using assms
proof (induction ds arbitrary: f u)
  case Nil
  then show ?case by simp
next
  case (Cons c ds)
  show ?case
  proof (cases "r \<notin> set f \<and> c \<in> set f")
    case True
    with Cons.prems have m: "markDerived r ds (r # f, True) = (f', u')" by simp
    from True Cons.prems have "r \<in> R" by auto
    with Cons.prems have "set (r # f) \<subseteq> R" by simp
    with Cons.IH[OF m] Cons.prems show ?thesis by simp
  next
    case False
    with Cons.prems have m: "markDerived r ds (f, u) = (f', u')" by auto
    with Cons.IH[OF m] Cons.prems show ?thesis by simp
  qed
qed

lemma closurePass_within:
  assumes "closurePass rm (f, u) = (f', u')"
    and "set f \<subseteq> R"
    and "\<forall>(p, ds) \<in> set rm. \<forall>c \<in> set ds. c \<in> R \<longrightarrow> p \<in> R"
  shows "set f' \<subseteq> R"
  using assms
proof (induction rm arbitrary: f u)
  case Nil
  then show ?case by simp
next
  case (Cons e rm)
  obtain r ds where e: "e = (r, ds)" by (cases e)
  from Cons.prems have cl: "\<forall>(p, ds) \<in> set rm. \<forall>c \<in> set ds. c \<in> R \<longrightarrow> p \<in> R" by simp
  show ?case
  proof (cases "ds = []")
    case True
    with Cons.prems e have "closurePass rm (f, u) = (f', u')" by simp
    from Cons.IH[OF this Cons.prems(2) cl] show ?thesis .
  next
    case False
    obtain f1 u1 where m: "markDerived r ds (f, u) = (f1, u1)"
      by (cases "markDerived r ds (f, u)")
    from Cons.prems e have "\<forall>c \<in> set ds. c \<in> R \<longrightarrow> r \<in> R" by simp
    from markDerived_within[OF m Cons.prems(2) this] have f1: "set f1 \<subseteq> R" .
    from Cons.prems e False m have "closurePass rm (f1, u1) = (f', u')" by simp
    from Cons.IH[OF this f1 cl] show ?thesis .
  qed
qed

lemma markDerived_updated: "markDerived r ds (f, True) = (f', u') \<Longrightarrow> u'"
proof (induction ds arbitrary: f)
  case Nil
  then show ?case by simp
next
  case (Cons c ds)
  show ?case
  proof (cases "r \<notin> set f \<and> c \<in> set f")
    case True
    with Cons.prems have "markDerived r ds (r # f, True) = (f', u')" by simp
    then show ?thesis by (rule Cons.IH)
  next
    case False
    with Cons.prems have "markDerived r ds (f, True) = (f', u')" by auto
    then show ?thesis by (rule Cons.IH)
  qed
qed

lemma markDerived_quiet:
  "markDerived r ds (f, u) = (f', False) \<Longrightarrow>
     f' = f \<and> \<not> u \<and> (\<forall>c \<in> set ds. c \<in> set f \<longrightarrow> r \<in> set f)"
proof (induction ds arbitrary: f u)
  case Nil
  then show ?case by simp
next
  case (Cons c ds)
  show ?case
  proof (cases "r \<notin> set f \<and> c \<in> set f")
    case True
    with Cons.prems have "markDerived r ds (r # f, True) = (f', False)" by simp
    then have False by (blast dest: markDerived_updated)
    then show ?thesis ..
  next
    case False
    with Cons.prems have "markDerived r ds (f, u) = (f', False)" by auto
    from Cons.IH[OF this] False show ?thesis by auto
  qed
qed

lemma closurePass_updated: "closurePass rm (f, True) = (f', u') \<Longrightarrow> u'"
proof (induction rm arbitrary: f)
  case Nil
  then show ?case by simp
next
  case (Cons e rm)
  obtain r ds where e: "e = (r, ds)" by (cases e)
  obtain f1 u1 where m: "markDerived r ds (f, True) = (f1, u1)"
    by (cases "markDerived r ds (f, True)")
  then have u1: "u1" by (rule markDerived_updated)
  show ?case
  proof (cases "ds = []")
    case True
    with Cons.prems e have "closurePass rm (f, True) = (f', u')" by simp
    then show ?thesis by (rule Cons.IH)
  next
    case False
    with Cons.prems e m u1 have "closurePass rm (f1, True) = (f', u')" by simp
    then show ?thesis by (rule Cons.IH)
  qed
qed

lemma closurePass_quiet:
  "closurePass rm (f, u) = (f', False) \<Longrightarrow>
     f' = f \<and> \<not> u \<and> (\<forall>(p, ds) \<in> set rm. \<forall>c \<in> set ds. c \<in> set f \<longrightarrow> p \<in> set f)"
proof (induction rm arbitrary: f u)
  case Nil
  then show ?case by simp
next
  case (Cons e rm)
  obtain r ds where e: "e = (r, ds)" by (cases e)
  show ?case
  proof (cases "ds = []")
    case True
    with Cons.prems e have "closurePass rm (f, u) = (f', False)" by simp
    from Cons.IH[OF this] True e show ?thesis by simp
  next
    case False
    obtain f1 u1 where m: "markDerived r ds (f, u) = (f1, u1)"
      by (cases "markDerived r ds (f, u)")
    from Cons.prems e False m have c: "closurePass rm (f1, u1) = (f', False)" by simp
    from Cons.IH[OF c] have 1: "f' = f1" "\<not> u1"
      and 2: "\<forall>(p, ds) \<in> set rm. \<forall>c \<in> set ds. c \<in> set f1 \<longrightarrow> p \<in> set f1" by auto
    from m 1 have "markDerived r ds (f, u) = (f1, False)" by simp
    from markDerived_quiet[OF this] have 3: "f1 = f" "\<not> u"
      and 4: "\<forall>c \<in> set ds. c \<in> set f \<longrightarrow> r \<in> set f" by auto
    from 1 2 3 4 e show ?thesis by simp
  qed
qed

lemma closeFinalized_closed:
  "set f \<subseteq> set (closeFinalized rm f)
   \<and> closurePass rm (closeFinalized rm f, False) = (closeFinalized rm f, False)"
proof (induction rm f rule: closeFinalized.induct)
  case (1 rm f)
  obtain f1 u1 where p: "closurePass rm (f, False) = (f1, u1)"
    by (cases "closurePass rm (f, False)")
  show ?case
  proof (cases u1)
    case True
    with p have eq: "closeFinalized rm f = closeFinalized rm f1"
      by (simp add: closeFinalized.simps[of rm f])
    from "1.IH"[OF p[symmetric] True] closurePass_grows[OF p] eq show ?thesis by auto
  next
    case False
    with p have q: "closurePass rm (f, False) = (f1, False)" by simp
    from closurePass_quiet[OF q] have "f1 = f" by simp
    with q False p have "closeFinalized rm f = f" by (simp add: closeFinalized.simps[of rm f])
    with q \<open>f1 = f\<close> show ?thesis by simp
  qed
qed

lemma closeFinalized_within:
  assumes "set f \<subseteq> R"
    and "\<forall>(p, ds) \<in> set rm. \<forall>c \<in> set ds. c \<in> R \<longrightarrow> p \<in> R"
  shows "set (closeFinalized rm f) \<subseteq> R"
  using assms
proof (induction rm f rule: closeFinalized.induct)
  case (1 rm f)
  obtain f1 u1 where p: "closurePass rm (f, False) = (f1, u1)"
    by (cases "closurePass rm (f, False)")
  from closurePass_within[OF p "1.prems"] have f1: "set f1 \<subseteq> R" .
  show ?case
  proof (cases u1)
    case True
    with p have eq: "closeFinalized rm f = closeFinalized rm f1"
      by (simp add: closeFinalized.simps[of rm f])
    from "1.IH"[OF p[symmetric] True f1 "1.prems"(2)] eq show ?thesis by simp
  next
    case False
    with p have "closeFinalized rm f = f1" by (simp add: closeFinalized.simps[of rm f])
    with f1 show ?thesis by simp
  qed
qed

lemma closeFinalized_set:
  "set (closeFinalized rm f) = {r. \<exists>c \<in> set f. (r, c) \<in> (derivedEdges rm)\<^sup>*}"
proof
  let ?R = "{r. \<exists>c \<in> set f. (r, c) \<in> (derivedEdges rm)\<^sup>*}"
  have "set f \<subseteq> ?R" by auto
  moreover have "\<forall>(p, ds) \<in> set rm. \<forall>c \<in> set ds. c \<in> ?R \<longrightarrow> p \<in> ?R"
  proof (clarify)
    fix p ds c x
    assume "(p, ds) \<in> set rm" "c \<in> set ds" "x \<in> set f" "(c, x) \<in> (derivedEdges rm)\<^sup>*"
    then have "(p, c) \<in> derivedEdges rm" by (auto simp: derivedEdges_def)
    with \<open>(c, x) \<in> (derivedEdges rm)\<^sup>*\<close> have "(p, x) \<in> (derivedEdges rm)\<^sup>*" by simp
    with \<open>x \<in> set f\<close> show "\<exists>c\<in>set f. (p, c) \<in> (derivedEdges rm)\<^sup>*" by blast
  qed
  ultimately show "set (closeFinalized rm f) \<subseteq> ?R" by (rule closeFinalized_within)
next
  let ?C = "closeFinalized rm f"
  from closeFinalized_closed[of f rm] have sub: "set f \<subseteq> set ?C"
    and fp: "closurePass rm (?C, False) = (?C, False)" by simp_all
  from closurePass_quiet[OF fp]
  have closed: "\<forall>(p, ds) \<in> set rm. \<forall>c \<in> set ds. c \<in> set ?C \<longrightarrow> p \<in> set ?C" by simp
  have step: "p \<in> set ?C" if "(p, c) \<in> derivedEdges rm" "c \<in> set ?C" for p c
    using that closed by (auto simp: derivedEdges_def)
  have "r \<in> set ?C" if "(r, c) \<in> (derivedEdges rm)\<^sup>*" "c \<in> set ?C" for r c
    using that by (induction rule: converse_rtrancl_induct) (auto intro: step)
  with sub show "{r. \<exists>c \<in> set f. (r, c) \<in> (derivedEdges rm)\<^sup>*} \<subseteq> set ?C" by blast
qed

lemma collectRoots_set:
  "collectRoots v roots f = Inr f' \<Longrightarrow> set f' = set f \<union> TypedHashFromRoot ` set roots"
proof (induction roots arbitrary: f)
  case Nil
  then show ?case by simp
next
  case (Cons r roots)
  from Cons.prems have "collectRoots v roots (List.insert (TypedHashFromRoot r) f) = Inr f'"
    by (simp split: if_splits)
  from Cons.IH[OF this] show ?case by auto
qed

lemma set_insertKey: "set (insertKey le k xs) = insert k (set xs)"
  by (induction xs) auto

lemma set_sortKeys: "set (sortKeys le xs) = set xs"
  by (induction xs) (auto simp: set_insertKey)












lemma latest_append_other: "k \<notin> fst ` set W \<Longrightarrow> latest (W @ s) k t = latest s k t"
proof (induction W)
  case Nil
  then show ?case by simp
next
  case (Cons e W)
  obtain k1 t1 w1 where e: "e = (k1, t1, w1)" by (cases e)
  with Cons show ?case by auto
qed

lemma latest_append_later:
  "\<forall>e \<in> set W. fst e = k \<longrightarrow> \<not> fst (snd e) \<le> t \<Longrightarrow> latest (W @ s) k t = latest s k t"
proof (induction W)
  case Nil
  then show ?case by simp
next
  case (Cons e W)
  obtain k1 t1 w1 where e: "e = (k1, t1, w1)" by (cases e)
  with Cons show ?case by auto
qed

lemma latest_append_tombstone:
  assumes "k \<in> fst ` set W" and "\<forall>e \<in> set W. fst e = k \<longrightarrow> e = (k, t, None)"
  shows "latest (W @ s) k t = Some (t, None)"
  using assms
proof (induction W)
  case Nil
  then show ?case by simp
next
  case (Cons e W)
  obtain k1 t1 w1 where e: "e = (k1, t1, w1)" by (cases e)
  show ?case
  proof (cases "k1 = k")
    case True
    with Cons.prems e have "e = (k, t, None)" by simp
    then show ?thesis by (simp only: append_Cons latest_write_at)
  next
    case False
    with Cons.prems e have "k \<in> fst ` set W" by auto
    moreover from Cons.prems have "\<forall>e \<in> set W. fst e = k \<longrightarrow> e = (k, t, None)" by simp
    ultimately have "latest (W @ s) k t = Some (t, None)" by (rule Cons.IH)
    with False e show ?thesis by simp
  qed
qed

lemma dbGet_onlyNodeDeletes:
  assumes "onlyNodeDeletes W t H"
  shows "dbGet (W @ s) t (NodeKey h) = (if h \<in> H then None else dbGet s t (NodeKey h))"
proof (cases "h \<in> H")
  case True
  with assms have "(NodeKey h, t, None) \<in> set W" by (simp add: onlyNodeDeletes_def)
  then have 1: "NodeKey h \<in> fst ` set W" by force
  have 2: "\<forall>e \<in> set W. fst e = NodeKey h \<longrightarrow> e = (NodeKey h, t, None)"
    using assms by (auto simp: onlyNodeDeletes_def)
  from latest_append_tombstone[OF 1 2] True show ?thesis by (simp add: dbGet_def)
next
  case False
  have "NodeKey h \<notin> fst ` set W"
  proof
    assume "NodeKey h \<in> fst ` set W"
    then obtain e where e: "e \<in> set W" "fst e = NodeKey h" by auto
    with assms have "e \<in> (\<lambda>h. (NodeKey h, t, None)) ` H" by (simp add: onlyNodeDeletes_def)
    with e False show False by auto
  qed
  then have "latest (W @ s) (NodeKey h) t = latest s (NodeKey h) t"
    by (rule latest_append_other)
  with False show ?thesis by (simp add: dbGet_def)
qed

lemma dbGet_onlyNodeDeletes_earlier:
  assumes "onlyNodeDeletes W t H" and "t' < t"
  shows "dbGet (W @ s) t' (NodeKey h) = dbGet s t' (NodeKey h)"
proof -
  have "\<forall>e \<in> set W. fst e = NodeKey h \<longrightarrow> \<not> fst (snd e) \<le> t'"
  proof (intro ballI impI)
    fix e assume e: "e \<in> set W" "fst e = NodeKey h"
    with assms have "e \<in> (\<lambda>h. (NodeKey h, t, None)) ` H" by (simp add: onlyNodeDeletes_def)
    then have "fst (snd e) = t" by auto
    with assms(2) show "\<not> fst (snd e) \<le> t'" by simp
  qed
  then have "latest (W @ s) (NodeKey h) t' = latest s (NodeKey h) t'"
    by (rule latest_append_later)
  then show ?thesis by (simp add: dbGet_def)
qed

lemma onlyNodeDeletes_other:
  "\<forall>e \<in> set C. \<not> isNodeKey (fst e) \<Longrightarrow> onlyNodeDeletes W t H \<Longrightarrow> onlyNodeDeletes (C @ W) t H"
  by (auto simp: onlyNodeDeletes_def)

lemma onlyNodeDeletes_none: "\<forall>e \<in> set W. \<not> isNodeKey (fst e) \<Longrightarrow> onlyNodeDeletes W t {}"
  by (simp add: onlyNodeDeletes_def)

lemma markFinalized_effect:
  "set (maybeLoneNodes (markFinalized ns st))
     = set (maybeLoneNodes st) \<union> {h. \<exists>n \<in> set ns. Removed n \<and> nodeHash n = h}
   \<and> set (notLoneNodes (markFinalized ns st))
     = set (notLoneNodes st) \<union> {h. \<exists>n \<in> set ns. \<not> Removed n \<and> nodeHash n = h}
   \<and> rootsMetaRoots (markFinalized ns st) = rootsMetaRoots st
   \<and> rootsChanged (markFinalized ns st) = rootsChanged st
   \<and> versionBatch (markFinalized ns st) = versionBatch st
   \<and> finalizeTx (markFinalized ns st) = finalizeTx st"
proof (induction ns arbitrary: st)
  case Nil
  then show ?case by simp
next
  case (Cons n ns)
  show ?case
  proof (cases "Removed n")
    case True
    with Cons[of "st\<lparr>maybeLoneNodes := List.insert (nodeHash n) (maybeLoneNodes st)\<rparr>"]
    show ?thesis by auto
  next
    case False
    with Cons[of "st\<lparr>notLoneNodes := List.insert (nodeHash n) (notLoneNodes st)\<rparr>"]
    show ?thesis by auto
  qed
qed

lemma markNotFinalized_effect:
  "set (maybeLoneNodes (markNotFinalized ns st))
     = set (maybeLoneNodes st) \<union> {h. \<exists>n \<in> set ns. \<not> Removed n \<and> nodeHash n = h}
   \<and> notLoneNodes (markNotFinalized ns st) = notLoneNodes st
   \<and> rootsMetaRoots (markNotFinalized ns st) = rootsMetaRoots st
   \<and> rootsChanged (markNotFinalized ns st) = rootsChanged st
   \<and> versionBatch (markNotFinalized ns st) = versionBatch st
   \<and> finalizeTx (markNotFinalized ns st) = finalizeTx st"
proof (induction ns arbitrary: st)
  case Nil
  then show ?case by simp
next
  case (Cons n ns)
  show ?case
  proof (cases "Removed n")
    case True
    with Cons[of st] show ?thesis by auto
  next
    case False
    with Cons[of "st\<lparr>maybeLoneNodes := List.insert (nodeHash n) (maybeLoneNodes st)\<rparr>"]
    show ?thesis by auto
  qed
qed

lemma deleteKeys_writes:
  "batchWrites (deleteKeys ks b) = rev (map (\<lambda>k. (k, batchTs b, None)) ks) @ batchWrites b
   \<and> batchTs (deleteKeys ks b) = batchTs b"
  by (induction ks arbitrary: b) (simp_all add: batchDelete_def)

lemma txIterate_prefix: "k \<in> set (txIterate P s tx prefix) \<Longrightarrow> prefix k"
  by (simp add: txIterate_def set_sortKeys)

lemma writeLogPrefix2_not_node: "writeLogPrefix2 v r k \<Longrightarrow> \<not> isNodeKey k"
  by (cases k) simp_all

lemma multipartPrefix_not_node: "multipartRestoreNodeLogPrefix k \<Longrightarrow> \<not> isNodeKey k"
  by (cases k) simp_all

lemma txGet_deletes:
  assumes "\<forall>kw \<in> set (pendingWrites tx). snd kw = None" and "txGet s tx k = Some x"
  shows "dbGet s (readTs tx) k = Some x"
proof (cases "map_of (pendingWrites tx) k")
  case None
  with assms(2) show ?thesis by (simp add: txGet_def)
next
  case (Some w)
  then have "(k, w) \<in> set (pendingWrites tx)" by (rule map_of_SomeD)
  with assms(1) have "w = None" by auto
  with Some assms(2) show ?thesis by (simp add: txGet_def)
qed

lemma loneSets_insert:
  "maybeLoneSet s t v (insert r rs) F
     = {h. \<exists>n \<in> set (storedUpdatedNodes s t v r). (r \<in> F) = Removed n \<and> nodeHash n = h}
       \<union> maybeLoneSet s t v rs F"
  "notLoneSet s t v (insert r rs) F
     = {h. r \<in> F \<and> (\<exists>n \<in> set (storedUpdatedNodes s t v r). \<not> Removed n \<and> nodeHash n = h)}
       \<union> notLoneSet s t v rs F"
  unfolding maybeLoneSet_def notLoneSet_def by blast+

lemma loneSets_empty:
  "maybeLoneSet s t v {} F = {}" "notLoneSet s t v {} F = {}"
  by (simp_all add: maybeLoneSet_def notLoneSet_def)

lemma finalizeRoot_effect:
  assumes "finalizeRoot P s disc v fin r st = Inr st'" and "loopInv t st"
  shows "loopInv t st'
     \<and> set (maybeLoneNodes st')
         = set (maybeLoneNodes st)
           \<union> {h. \<exists>n \<in> set (storedUpdatedNodes s t v r). (r \<in> set fin) = Removed n \<and> nodeHash n = h}
     \<and> set (notLoneNodes st')
         = set (notLoneNodes st)
           \<union> {h. r \<in> set fin
                  \<and> (\<exists>n \<in> set (storedUpdatedNodes s t v r). \<not> Removed n \<and> nodeHash n = h)}"
proof -
  let ?key = "RootUpdatedNodesKey v r"
  from assms(1) obtain t0 ns where g: "txGet s (finalizeTx st) ?key = Some (t0, VUpdatedNodes ns)"
    by (auto simp: finalizeRoot_def Let_def split: option.splits val.splits)
  from assms(2) have del: "\<forall>kw \<in> set (pendingWrites (finalizeTx st)). snd kw = None"
    and rt: "readTs (finalizeTx st) = t" by (simp_all add: loopInv_def)
  from txGet_deletes[OF del g] rt have "dbGet s t ?key = Some (t0, VUpdatedNodes ns)" by simp
  then have stored: "storedUpdatedNodes s t v r = ns" by (simp add: storedUpdatedNodes_def)
  show ?thesis
  proof (cases "r \<in> set fin")
    case True
    with assms(1) g have st': "st' = (markFinalized ns st)\<lparr>finalizeTx :=
                                 txDelete (finalizeTx (markFinalized ns st)) ?key\<rparr>"
      by (simp add: finalizeRoot_def Let_def)
    from markFinalized_effect[of ns st] assms(2) True show ?thesis
      unfolding st' stored by (auto simp: loopInv_def txDelete_def)
  next
    case False
    let ?st2 = "markNotFinalized ns st"
    let ?st3 = "?st2\<lparr>rootsMetaRoots := deleteRoot r (rootsMetaRoots ?st2), rootsChanged := True\<rparr>"
    let ?st4 = "if \<not> disc then
                  ?st3\<lparr>versionBatch := deleteKeys (txIterate P s (finalizeTx ?st3) (writeLogPrefix2 v r))
                                            (versionBatch ?st3)\<rparr>
                else ?st3"
    from False assms(1) g have st': "st' = ?st4\<lparr>finalizeTx := txDelete (finalizeTx ?st4) ?key\<rparr>"
      by (simp add: finalizeRoot_def Let_def)
    have wl: "\<forall>k \<in> set (txIterate P s tx (writeLogPrefix2 v r)). \<not> isNodeKey k" for tx
      using txIterate_prefix writeLogPrefix2_not_node by blast
    from markNotFinalized_effect[of ns st] assms(2) False wl show ?thesis
      unfolding st' stored by (auto simp: loopInv_def txDelete_def deleteKeys_writes)
  qed
qed

lemma finalizeRoots_effect:
  assumes "finalizeRoots P s disc v fin ks st = Inr st'" and "loopInv t st"
  shows "loopInv t st'
     \<and> set (maybeLoneNodes st')
         = set (maybeLoneNodes st) \<union> maybeLoneSet s t v (set ks) (set fin)
     \<and> set (notLoneNodes st')
         = set (notLoneNodes st) \<union> notLoneSet s t v (set ks) (set fin)"
  using assms
proof (induction ks arbitrary: st)
  case Nil
  then show ?case by (simp add: maybeLoneSet_def notLoneSet_def)
next
  case (Cons r ks)
  from Cons.prems(1) obtain st1 where
    one: "finalizeRoot P s disc v fin r st = Inr st1"
    and rest: "finalizeRoots P s disc v fin ks st1 = Inr st'"
    by (auto split: sum.splits)
  from finalizeRoot_effect[OF one Cons.prems(2)]
  have i1: "loopInv t st1"
    and m1: "set (maybeLoneNodes st1) = set (maybeLoneNodes st)
               \<union> {h. \<exists>n \<in> set (storedUpdatedNodes s t v r). (r \<in> set fin) = Removed n \<and> nodeHash n = h}"
    and n1: "set (notLoneNodes st1) = set (notLoneNodes st)
               \<union> {h. r \<in> set fin
                      \<and> (\<exists>n \<in> set (storedUpdatedNodes s t v r). \<not> Removed n \<and> nodeHash n = h)}"
    by simp_all
  from Cons.IH[OF rest i1]
  have i2: "loopInv t st'"
    and m2: "set (maybeLoneNodes st') = set (maybeLoneNodes st1) \<union> maybeLoneSet s t v (set ks) (set fin)"
    and n2: "set (notLoneNodes st') = set (notLoneNodes st1) \<union> notLoneSet s t v (set ks) (set fin)"
    by simp_all
  have "set (maybeLoneNodes st') = set (maybeLoneNodes st) \<union> maybeLoneSet s t v (set (r # ks)) (set fin)"
    unfolding m2 m1 by (simp add: loneSets_insert Un_assoc)
  moreover
  have "set (notLoneNodes st') = set (notLoneNodes st) \<union> notLoneSet s t v (set (r # ks)) (set fin)"
    unfolding n2 n1 by (simp add: loneSets_insert Un_assoc)
  ultimately show ?case using i2 by simp
qed

lemma onlyNodeDeletes_insert:
  "onlyNodeDeletes W t H \<Longrightarrow> onlyNodeDeletes ((NodeKey h, t, None) # W) t (insert h H)"
  by (auto simp: onlyNodeDeletes_def)

lemma cleanLoneNodes_writes:
  assumes "onlyNodeDeletes (batchWrites b) t H" and "batchTs b = t"
  shows "onlyNodeDeletes (batchWrites (cleanLoneNodes ml nl b)) t (H \<union> (set ml - set nl))"
  using assms
proof (induction ml arbitrary: b H)
  case Nil
  then show ?case by simp
next
  case (Cons h ml)
  show ?case
  proof (cases "h \<in> set nl")
    case True
    then have "H \<union> (set (h # ml) - set nl) = H \<union> (set ml - set nl)" by auto
    with Cons True show ?thesis by simp
  next
    case False
    let ?b = "batchDelete b (NodeKey h)"
    from Cons.prems have "onlyNodeDeletes (batchWrites ?b) t (insert h H)"
      by (simp add: batchDelete_def onlyNodeDeletes_insert)
    moreover from Cons.prems have "batchTs ?b = t" by (simp add: batchDelete_def)
    ultimately have "onlyNodeDeletes (batchWrites (cleanLoneNodes ml nl ?b)) t
                       (insert h H \<union> (set ml - set nl))" by (rule Cons.IH)
    moreover from False have "insert h H \<union> (set ml - set nl) = H \<union> (set (h # ml) - set nl)"
      by auto
    ultimately show ?thesis using False by simp
  qed
qed

lemma cleanMultipartLoop_keep:
  "cleanMultipartLoop tsm False ks b = Inr b' \<Longrightarrow>
     batchWrites b' = rev (map (\<lambda>k. (k, tsm, None)) ks) @ batchWrites b"
  by (induction ks arbitrary: b) (simp_all add: batchDeleteAt_def)

lemma cleanMultipartLocked_keep:
  assumes "cleanMultipartLocked P d False = Inr d'"
  shows "\<exists>M. db d' = M @ db d \<and> (\<forall>e \<in> set M. \<not> isNodeKey (fst e))"
proof (cases "(if multipartVersion d \<noteq> multipartVersionNone then multipartVersion d
               else getMultipartVersion (meta d)) = multipartVersionNone")
  case True
  with assms have "d' = d" by (simp add: cleanMultipartLocked_def Let_def)
  then show ?thesis by simp
next
  case False
  let ?v = "if multipartVersion d \<noteq> multipartVersionNone then multipartVersion d
            else getMultipartVersion (meta d)"
  let ?ks = "txIterate P (db d) (NewTransactionAt (tsMetadata P)) multipartRestoreNodeLogPrefix"
  from False assms obtain b where
    loop: "cleanMultipartLoop (tsMetadata P) False ?ks (NewWriteBatchAt (versionToTs P ?v)) = Inr b"
    and d': "db d' = (MetadataKey, tsMetadata P, Some (VMetadata ((meta d)\<lparr>MultipartVersion := 0\<rparr>)))
                      # batchWrites b @ db d"
    by (auto simp: cleanMultipartLocked_def Let_def setMultipartVersion_def metaSave_def
          txSet_def NewTransactionAt_def CommitAt_def Flush_def split: sum.splits)
  from cleanMultipartLoop_keep[OF loop]
  have w: "batchWrites b = rev (map (\<lambda>k. (k, tsMetadata P, None)) ?ks)"
    by (simp add: NewWriteBatchAt_def)
  have "\<forall>k \<in> set ?ks. \<not> isNodeKey k"
    using txIterate_prefix multipartPrefix_not_node by blast
  with w have "\<forall>e \<in> set (batchWrites b). \<not> isNodeKey (fst e)" by auto
  with d' show ?thesis by auto
qed

lemma finalizeCommit_writes:
  assumes "finalizeCommit P d v st = Inr d'" and "loopInv t st"
  shows "\<exists>W. db d' = W @ db d
           \<and> onlyNodeDeletes W t (set (maybeLoneNodes st) - set (notLoneNodes st))"
proof -
  let ?batch = "cleanLoneNodes (maybeLoneNodes st) (notLoneNodes st) (versionBatch st)"
  let ?tx1 = "if rootsChanged st then rootsMetaSave (rootsMetaRoots st) v (finalizeTx st)
              else finalizeTx st"
  let ?m = "case LastFinalizedVersion (meta d) of
              None \<Rightarrow> (meta d)\<lparr>EarliestVersion := v, LastFinalizedVersion := Some v\<rparr>
            | Some lf \<Rightarrow> (meta d)\<lparr>LastFinalizedVersion := Some v\<rparr>"
  let ?tx2 = "metaSave ?m ?tx1"
  let ?C = "map (\<lambda>(k, w). (k, tsMetadata P, w)) (pendingWrites ?tx2)"
  let ?s = "?C @ batchWrites ?batch @ db d"
  let ?d1 = "d\<lparr>db := ?s, meta := ?m\<rparr>"
  from assms(2) have "onlyNodeDeletes (batchWrites (versionBatch st)) t {}"
    and "batchTs (versionBatch st) = t"
    by (simp_all add: loopInv_def onlyNodeDeletes_none)
  from cleanLoneNodes_writes[OF this]
  have B: "onlyNodeDeletes (batchWrites ?batch) t (set (maybeLoneNodes st) - set (notLoneNodes st))"
    by simp
  from assms(2) have "\<forall>kw \<in> set (pendingWrites ?tx2). \<not> isNodeKey (fst kw)"
    by (auto simp: loopInv_def metaSave_def rootsMetaSave_def txSet_def)
  then have C: "\<forall>e \<in> set ?C. \<not> isNodeKey (fst e)" by (simp add: case_prod_beta)
  from onlyNodeDeletes_other[OF C B]
  have CB: "onlyNodeDeletes (?C @ batchWrites ?batch) t
              (set (maybeLoneNodes st) - set (notLoneNodes st))" .
  have fc: "finalizeCommit P d v st =
              (if multipartVersion ?d1 \<noteq> multipartVersionNone then cleanMultipartLocked P ?d1 False
               else Inr ?d1)"
    by (simp add: finalizeCommit_def Let_def setLastFinalizedVersion_def Flush_def CommitAt_def)
  show ?thesis
  proof (cases "multipartVersion ?d1 \<noteq> multipartVersionNone")
    case False
    with fc assms(1) have "d' = ?d1" by simp
    then have "db d' = (?C @ batchWrites ?batch) @ db d" by simp
    with CB show ?thesis by blast
  next
    case True
    with fc assms(1) have "cleanMultipartLocked P ?d1 False = Inr d'" by simp
    from cleanMultipartLocked_keep[OF this] obtain M where
      M: "db d' = M @ db ?d1" "\<forall>e \<in> set M. \<not> isNodeKey (fst e)" by blast
    from onlyNodeDeletes_other[OF M(2) CB]
    have "onlyNodeDeletes (M @ ?C @ batchWrites ?batch) t
            (set (maybeLoneNodes st) - set (notLoneNodes st))" .
    moreover from M(1) have "db d' = (M @ ?C @ batchWrites ?batch) @ db d" by simp
    ultimately show ?thesis by blast
  qed
qed

lemma siblingStore_roots:
  "Version x = 2 \<Longrightarrow>
     loadRootsMetadata (db (exampleDB e lf m siblingStore))
       (NewTransactionAt (versionToTs exampleParams (Version x))) (Version x)
     = Inr [((RootTypeState, 101), []), ((RootTypeState, 102), [])]"
  by (simp add: example_defs loadRootsMetadata_def txGet_def dbGet_def NewTransactionAt_def)

section \<open>Theorems\<close>

text \<open>
  C1. After \<open>Finalize(roots)\<close> succeeds at version \<open>V\<close>, with the finalized roots being
  those from which a root given is reachable over derived-root edges: a node hash
  that is in \<open>maybeLone\<close> and not in \<open>notLone\<close> has no node at the timestamp of \<open>V\<close>,
  and every other node hash reads at that timestamp as before. In particular a node
  that a finalized root records as added is kept, and a node recorded only as added by
  roots that are not finalized, or only as removed by finalized roots, is deleted.
  The deletions are at version \<open>V\<close>: reads at earlier timestamps are unchanged.
\<close>

theorem Finalize_lone_nodes:
  assumes "Finalize P d (r # rest) = Inr d'"
    and "loadRootsMetadata (db d) (NewTransactionAt (versionToTs P (Version r))) (Version r)
           = Inr rootsMeta"
    and "t = versionToTs P (Version r)"
    and "fin = {x. \<exists>y \<in> set (r # rest). (x, TypedHashFromRoot y) \<in> (derivedEdges rootsMeta)\<^sup>*}"
    and "lone = maybeLoneSet (db d) t (Version r) (fst ` set rootsMeta) fin
                 - notLoneSet (db d) t (Version r) (fst ` set rootsMeta) fin"
  shows "dbGet (db d') t (NodeKey h) = (if h \<in> lone then None else dbGet (db d) t (NodeKey h))
       \<and> (\<forall>t' < t. dbGet (db d') t' (NodeKey h) = dbGet (db d) t' (NodeKey h))"
proof -
  let ?v = "Version r"
  let ?st0 = "\<lparr>maybeLoneNodes = [], notLoneNodes = [], rootsMetaRoots = rootsMeta,
               rootsChanged = False, versionBatch = NewWriteBatchAt t,
               finalizeTx = NewTransactionAt t\<rparr>"
  from assms(1) have fv: "finalizeVersion P d ?v (r # rest) = Inr d'"
    by (auto simp: Finalize_def Let_def split: if_splits prod.splits)
  from fv assms(2,3) obtain f0 st where
    c: "collectRoots ?v (r # rest) [] = Inr f0"
    and l: "finalizeRoots P (db d) (discardWriteLogs d) ?v (closeFinalized rootsMeta f0)
              (map fst rootsMeta) ?st0 = Inr st"
    and fc: "finalizeCommit P d ?v st = Inr d'"
    by (auto simp: finalizeVersion_def Let_def split: sum.splits if_splits)
  from collectRoots_set[OF c] have "set f0 = TypedHashFromRoot ` set (r # rest)" by simp
  then have f: "set (closeFinalized rootsMeta f0) = fin"
    unfolding assms(4) closeFinalized_set by simp
  have i0: "loopInv t ?st0"
    by (simp add: loopInv_def NewWriteBatchAt_def NewTransactionAt_def)
  from finalizeRoots_effect[OF l i0] f
  have i: "loopInv t st"
    and "set (maybeLoneNodes st) = maybeLoneSet (db d) t ?v (fst ` set rootsMeta) fin"
    and "set (notLoneNodes st) = notLoneSet (db d) t ?v (fst ` set rootsMeta) fin"
    by simp_all
  then have lone: "set (maybeLoneNodes st) - set (notLoneNodes st) = lone"
    by (simp add: assms(5))
  from finalizeCommit_writes[OF fc i] lone obtain W where
    W: "db d' = W @ db d" "onlyNodeDeletes W t lone" by auto
  from W dbGet_onlyNodeDeletes[OF W(2)] dbGet_onlyNodeDeletes_earlier[OF W(2)]
  show ?thesis by simp
qed

theorem Finalize_lone_nodes_witness:
  "\<exists>d'. Finalize exampleParams (exampleDB 1 (Some 1) 0 siblingStore) [exampleRoot 2 101] = Inr d'
      \<and> dbGet siblingStore 4 (NodeKey 32) = Some (4, VNode [2])
      \<and> dbGet (db d') 4 (NodeKey 32) = None
      \<and> dbGet (db d') 4 (NodeKey 31) = Some (4, VNode [1])"
proof -
  let ?d = "exampleDB 1 (Some 1) 0 siblingStore"
  let ?r = "exampleRoot 2 101"
  let ?rm = "[((RootTypeState, 101), []), ((RootTypeState, 102), [])] :: rootsMetadata"
  have "\<exists>d'. Finalize exampleParams ?d [?r] = Inr d'"
    by (simp add: example_defs finalize_defs word_le_nat_alt)
  then obtain d' where ev: "Finalize exampleParams ?d [?r] = Inr d'" ..
  have facts: "db ?d = siblingStore" "Version ?r = 2" "versionToTs exampleParams 2 = 4"
    "TypedHashFromRoot ?r = (RootTypeState, 101)"
    by (simp_all add: exampleDB_def exampleRoot_def exampleParams_def TypedHashFromRoot_def)
  have load: "loadRootsMetadata (db ?d) (NewTransactionAt (versionToTs exampleParams (Version ?r)))
                (Version ?r) = Inr ?rm"
    unfolding facts
    by (simp add: siblingStore_def loadRootsMetadata_def txGet_def dbGet_def NewTransactionAt_def)
  have E: "derivedEdges ?rm = {}" by (auto simp: derivedEdges_def)
  have fin: "{x. \<exists>y \<in> set [?r]. (x, TypedHashFromRoot y) \<in> (derivedEdges ?rm)\<^sup>*}
               = {(RootTypeState, 101)}"
    by (auto simp: E facts)
  have su: "storedUpdatedNodes siblingStore 4 2 (RootTypeState, 101)
              = [\<lparr>Removed = False, nodeHash = 31\<rparr>]"
    "storedUpdatedNodes siblingStore 4 2 (RootTypeState, 102)
              = [\<lparr>Removed = False, nodeHash = 31\<rparr>, \<lparr>Removed = False, nodeHash = 32\<rparr>]"
    by (simp_all add: storedUpdatedNodes_def dbGet_def siblingStore_def)
  have m: "maybeLoneSet siblingStore 4 2 (fst ` set ?rm) {(RootTypeState, 101)} = {31, 32}"
    by (auto simp: loneSets_insert loneSets_empty su)
  have n: "notLoneSet siblingStore 4 2 (fst ` set ?rm) {(RootTypeState, 101)} = {31}"
    by (auto simp: loneSets_insert loneSets_empty su)
  have lone: "maybeLoneSet (db ?d) 4 (Version ?r) (fst ` set ?rm)
                {x. \<exists>y \<in> set [?r]. (x, TypedHashFromRoot y) \<in> (derivedEdges ?rm)\<^sup>*}
              - notLoneSet (db ?d) 4 (Version ?r) (fst ` set ?rm)
                {x. \<exists>y \<in> set [?r]. (x, TypedHashFromRoot y) \<in> (derivedEdges ?rm)\<^sup>*}
              = {32}"
    unfolding fin facts m n by auto
  have t: "4 = versionToTs exampleParams (Version ?r)" by (simp add: facts)
  have before: "dbGet siblingStore 4 (NodeKey 32) = Some (4, VNode [2])"
    "dbGet siblingStore 4 (NodeKey 31) = Some (4, VNode [1])"
    by (simp_all add: dbGet_def siblingStore_def)
  from Finalize_lone_nodes [OF ev load t refl lone[symmetric], of 32]
  have a: "dbGet (db d') 4 (NodeKey 32) = None" by simp
  from Finalize_lone_nodes [OF ev load t refl lone[symmetric], of 31] before facts
  have b: "dbGet (db d') 4 (NodeKey 31) = Some (4, VNode [1])" by simp
  from ev a b before show ?thesis by blast
qed

text \<open>
  C2. In \<open>Finalize\<close> the finalized set starts from the fingerprints of the roots given
  and is closed upwards along the edges of the roots metadata: the loop ends at a
  fixed point (one more pass marks nothing), and a root is in the final set exactly
  when one of the roots given is reachable from it through derived-root edges, in
  zero or more steps.
\<close>

theorem closeFinalized_reachable:
  assumes "collectRoots v roots [] = Inr finalizedRoots"
  shows "set (closeFinalized rootsMeta finalizedRoots)
           = {r. \<exists>x \<in> set roots. (r, TypedHashFromRoot x) \<in> (derivedEdges rootsMeta)\<^sup>*}
       \<and> closurePass rootsMeta (closeFinalized rootsMeta finalizedRoots, False)
           = (closeFinalized rootsMeta finalizedRoots, False)"
proof -
  from collectRoots_set[OF assms] have "set finalizedRoots = TypedHashFromRoot ` set roots"
    by simp
  then have "set (closeFinalized rootsMeta finalizedRoots)
           = {r. \<exists>x \<in> set roots. (r, TypedHashFromRoot x) \<in> (derivedEdges rootsMeta)\<^sup>*}"
    by (simp add: closeFinalized_set)
  with closeFinalized_closed[of finalizedRoots rootsMeta] show ?thesis by simp
qed

theorem closeFinalized_reachable_witness:
  "collectRoots 2 [exampleRoot 2 3] [] = Inr [(RootTypeState, 3)]
   \<and> closeFinalized exampleLineage [(RootTypeState, 3)]
       = [(RootTypeState, 1), (RootTypeState, 2), (RootTypeState, 3)]
   \<and> ((RootTypeState, 1), (RootTypeState, 3)) \<in> (derivedEdges exampleLineage)\<^sup>*
   \<and> ((RootTypeState, 4), (RootTypeState, 3)) \<notin> (derivedEdges exampleLineage)\<^sup>*"
proof -
  have c: "collectRoots 2 [exampleRoot 2 3] [] = Inr [(RootTypeState, 3)]"
    by (simp add: exampleRoot_def TypedHashFromRoot_def)
  have e: "closeFinalized exampleLineage [(RootTypeState, 3)]
             = [(RootTypeState, 1), (RootTypeState, 2), (RootTypeState, 3)]"
    by (simp add: closeFinalized.simps exampleLineage_def)
  from closeFinalized_reachable [OF c, of exampleLineage]
  have s: "set (closeFinalized exampleLineage [(RootTypeState, 3)])
             = {r. (r, (RootTypeState, 3)) \<in> (derivedEdges exampleLineage)\<^sup>*}"
    by (simp add: exampleRoot_def TypedHashFromRoot_def)
  have "(RootTypeState, 1) \<in> set (closeFinalized exampleLineage [(RootTypeState, 3)])"
    and "(RootTypeState, 4) \<notin> set (closeFinalized exampleLineage [(RootTypeState, 3)])"
    by (simp_all add: e)
  with s have "((RootTypeState, 1), (RootTypeState, 3)) \<in> (derivedEdges exampleLineage)\<^sup>*"
    and "((RootTypeState, 4), (RootTypeState, 3)) \<notin> (derivedEdges exampleLineage)\<^sup>*"
    by simp_all
  with c e show ?thesis by simp
qed

text \<open>
  C3, as amended. On an engine that is not read-only, with no multipart restore
  active, \<open>Finalize\<close> of roots at version \<open>V\<close> returns \<open>AlreadyFinalized\<close> when a
  version was finalized and \<open>V\<close> is at most the last finalized version, and
  \<open>NotFinalized\<close> when a version was finalized, \<open>V > 0\<close> and the last finalized version
  is below \<open>V - 1\<close>. Finalization proceeds when the last finalized version is
  \<open>V - 1\<close>, and also when no version was ever finalized, whatever \<open>V\<close> is.
\<close>

theorem Finalize_version_checks:
  assumes "\<not> readOnly d" and "multipartVersion d = multipartVersionNone"
    and "roots = r # rest" and "v = Version r"
  shows "(\<forall>lf. LastFinalizedVersion (meta d) = Some lf \<and> v \<le> lf \<longrightarrow>
            Finalize P d roots = Inl ErrAlreadyFinalized)
       \<and> (\<forall>lf. LastFinalizedVersion (meta d) = Some lf \<and> 0 < v \<and> lf < v - 1 \<longrightarrow>
            Finalize P d roots = Inl ErrNotFinalized)
       \<and> (LastFinalizedVersion (meta d) = None
            \<or> (0 < v \<and> LastFinalizedVersion (meta d) = Some (v - 1)) \<longrightarrow>
            Finalize P d roots = finalizeVersion P d v roots)"
proof (intro conjI allI impI)
  fix lf
  assume a: "LastFinalizedVersion (meta d) = Some lf \<and> v \<le> lf"
  have "\<not> (0 < v \<and> lf < v - 1)"
  proof
    assume b: "0 < v \<and> lf < v - 1"
    then have "v - 1 < v" by (simp add: word_pred_less)
    with a b show False by auto
  qed
  with a assms show "Finalize P d roots = Inl ErrAlreadyFinalized"
    by (auto simp: Finalize_def getLastFinalizedVersion_def Let_def)
next
  fix lf
  assume "LastFinalizedVersion (meta d) = Some lf \<and> 0 < v \<and> lf < v - 1"
  with assms show "Finalize P d roots = Inl ErrNotFinalized"
    by (simp add: Finalize_def getLastFinalizedVersion_def Let_def)
next
  assume "LastFinalizedVersion (meta d) = None
            \<or> (0 < v \<and> LastFinalizedVersion (meta d) = Some (v - 1))"
  then show "Finalize P d roots = finalizeVersion P d v roots"
  proof
    assume "LastFinalizedVersion (meta d) = None"
    with assms show ?thesis
      by (simp add: Finalize_def getLastFinalizedVersion_def Let_def)
  next
    assume c: "0 < v \<and> LastFinalizedVersion (meta d) = Some (v - 1)"
    then have "v - 1 < v" by (simp add: word_pred_less)
    then have "\<not> v \<le> v - 1" by simp
    with c assms show ?thesis
      by (simp add: Finalize_def getLastFinalizedVersion_def Let_def)
  qed
qed

theorem Finalize_version_checks_witness:
  "Finalize exampleParams (exampleDB 1 (Some 2) 0 siblingStore) [exampleRoot 2 101]
     = Inl ErrAlreadyFinalized
   \<and> Finalize exampleParams (exampleDB 0 (Some 0) 0 siblingStore) [exampleRoot 2 101]
     = Inl ErrNotFinalized
   \<and> Finalize exampleParams (exampleDB 1 (Some 1) 0 siblingStore) [exampleRoot 2 101]
     = finalizeVersion exampleParams (exampleDB 1 (Some 1) 0 siblingStore) 2 [exampleRoot 2 101]"
proof -
  have h: "\<not> readOnly (exampleDB e lf 0 s)"
    "multipartVersion (exampleDB e lf 0 s) = multipartVersionNone"
    "LastFinalizedVersion (meta (exampleDB e lf 0 s)) = lf" for e lf s
    by (simp_all add: exampleDB_def multipartVersionNone_def)
  have v: "Version (exampleRoot 2 101) = 2" by (simp add: exampleRoot_def)
  have a: "Finalize exampleParams (exampleDB 1 (Some 2) 0 siblingStore) [exampleRoot 2 101]
             = Inl ErrAlreadyFinalized"
    using Finalize_version_checks [where d = "exampleDB 1 (Some 2) 0 siblingStore"
            and r = "exampleRoot 2 101" and rest = "[]" and P = exampleParams,
            OF h(1) h(2) refl refl]
    by (simp add: h(3) v)
  have b: "Finalize exampleParams (exampleDB 0 (Some 0) 0 siblingStore) [exampleRoot 2 101]
             = Inl ErrNotFinalized"
    using Finalize_version_checks [where d = "exampleDB 0 (Some 0) 0 siblingStore"
            and r = "exampleRoot 2 101" and rest = "[]" and P = exampleParams,
            OF h(1) h(2) refl refl]
    by (simp add: h(3) v)
  have c: "Finalize exampleParams (exampleDB 1 (Some 1) 0 siblingStore) [exampleRoot 2 101]
     = finalizeVersion exampleParams (exampleDB 1 (Some 1) 0 siblingStore) 2 [exampleRoot 2 101]"
    using Finalize_version_checks [where d = "exampleDB 1 (Some 1) 0 siblingStore"
            and r = "exampleRoot 2 101" and rest = "[]" and P = exampleParams,
            OF h(1) h(2) refl refl]
    by (simp add: h(3) v)
  from a b c show ?thesis by simp
qed

theorem Finalize_first_version_counterexample:
  "Finalize exampleParams (exampleDB 0 None 0 siblingStore) [exampleRoot 2 101]
     \<noteq> Inl ErrNotFinalized
   \<and> map_sum id (\<lambda>d. LastFinalizedVersion (meta d))
        (Finalize exampleParams (exampleDB 0 None 0 siblingStore) [exampleRoot 2 101])
      = Inr (Some 2)"
  by (simp add: example_defs finalize_defs)

text \<open>
  C4, as amended. With versions 1, 2 and 3 finalized and version 1 pruned (earliest
  version 2, last finalized version 3), \<open>Prune(1)\<close> returns \<open>NotEarliest\<close>, and so does
  \<open>Prune(3)\<close>: the check for the earliest version comes before the check for the
  latest one. \<open>Prune(3)\<close> returns \<open>CannotPruneLatestVersion\<close> once version 3 is the
  earliest version as well.
\<close>

theorem Prune_S5_state:
  assumes "\<not> readOnly d" and "multipartVersion d = 0"
    and "EarliestVersion (meta d) = e" and "LastFinalizedVersion (meta d) = Some 3"
  shows "(e = 2 \<longrightarrow> Prune P d 1 = Inl ErrNotEarliest \<and> Prune P d 3 = Inl ErrNotEarliest)
       \<and> (e = 3 \<longrightarrow> Prune P d 3 = Inl ErrCannotPruneLatestVersion)"
  using assms
  by (simp add: Prune_def multipartVersionNone_def getLastFinalizedVersion_def
        getEarliestVersion_def)

theorem Prune_S5_state_witness:
  "Prune exampleParams (exampleDB 2 (Some 3) 0 []) 1 = Inl ErrNotEarliest
   \<and> Prune exampleParams (exampleDB 2 (Some 3) 0 []) 3 = Inl ErrNotEarliest
   \<and> Prune exampleParams (exampleDB 3 (Some 3) 0 []) 3 = Inl ErrCannotPruneLatestVersion"
  using Prune_S5_state [of "exampleDB 2 (Some 3) 0 []" 2 exampleParams]
    Prune_S5_state [of "exampleDB 3 (Some 3) 0 []" 3 exampleParams]
  by (simp add: exampleDB_def)

theorem Prune_S5_counterexample:
  "Prune exampleParams (exampleDB 2 (Some 3) 0 []) 3 \<noteq> Inl ErrCannotPruneLatestVersion"
  by (simp add: Prune_def exampleDB_def multipartVersionNone_def getLastFinalizedVersion_def
        getEarliestVersion_def)




text \<open>
  C6, as amended. When \<open>Commit(newRoot)\<close> is called on a batch that is not in chunk
  mode and the fingerprint of the new root is already in the roots metadata of its
  version, the database is left as it was: nothing is flushed or committed. When the
  checks at the head of \<open>Commit\<close> pass (multipart version, namespace, the new root
  follows the old root, the version is not finalized yet) the commit succeeds, the
  writes of the batch are cancelled and the stashed write log, annotations and
  updated nodes are dropped. When one of them fails, \<open>Commit\<close> returns the error of
  the first that fails, in the order of the code: \<open>InvalidMultipartVersion\<close>,
  \<open>BadNamespace\<close>, \<open>RootMustFollowOld\<close>, \<open>AlreadyFinalized\<close>.
\<close>

theorem Commit_existing_root:
  assumes "\<not> chunk ba"
    and "loadRootsMetadata (db d) (NewTransactionAt (versionToTs P (Version r))) (Version r)
           = Inr rootsMeta"
    and "map_of rootsMeta (TypedHashFromRoot r) \<noteq> None"
  shows "fst (snd (Commit P d ba r)) = d
     \<and> ((multipartVersion d = multipartVersionNone \<or> multipartVersion d = Version r)
          \<and> Namespace r = namespace d \<and> Follows P r (oldRoot ba)
          \<and> (\<forall>lf. LastFinalizedVersion (meta d) = Some lf \<longrightarrow> lf < Version r)
         \<longrightarrow> fst (Commit P d ba r) = None
             \<and> writeLog (snd (snd (Commit P d ba r))) = None
             \<and> annotations (snd (snd (Commit P d ba r))) = None
             \<and> updatedNodes (snd (snd (Commit P d ba r))) = []
             \<and> batchWrites (bat (snd (snd (Commit P d ba r)))) = []
             \<and> (\<forall>b. multipartNodes (snd (snd (Commit P d ba r))) = Some b \<longrightarrow> batchWrites b = []))
     \<and> (multipartVersion d \<noteq> multipartVersionNone \<and> multipartVersion d \<noteq> Version r
         \<longrightarrow> fst (Commit P d ba r) = Some ErrInvalidMultipartVersion)
     \<and> ((multipartVersion d = multipartVersionNone \<or> multipartVersion d = Version r)
          \<and> Namespace r \<noteq> namespace d
         \<longrightarrow> fst (Commit P d ba r) = Some ErrBadNamespace)
     \<and> ((multipartVersion d = multipartVersionNone \<or> multipartVersion d = Version r)
          \<and> Namespace r = namespace d \<and> \<not> Follows P r (oldRoot ba)
         \<longrightarrow> fst (Commit P d ba r) = Some ErrRootMustFollowOld)
     \<and> ((multipartVersion d = multipartVersionNone \<or> multipartVersion d = Version r)
          \<and> Namespace r = namespace d \<and> Follows P r (oldRoot ba)
          \<and> (\<exists>lf. LastFinalizedVersion (meta d) = Some lf \<and> Version r \<le> lf)
         \<longrightarrow> fst (Commit P d ba r) = Some ErrAlreadyFinalized)"
proof -
  have root: "commitRoot P d ba r rootsMeta tx
                = (None, d, Reset (ba\<lparr>bat := batchSet (bat ba) (RootNodeKey (TypedHashFromRoot r)) VEmpty,
                                       multipartNodes :=
                                         map_option (\<lambda>b. batchSet b (MultipartRestoreNodeLogKey (TypedHashFromRoot r)) VEmpty)
                                           (multipartNodes ba)\<rparr>))" for tx
    using assms(1,3) by (simp add: commitRoot_def Let_def BaseBatchCommit_def)
  show ?thesis
  proof (cases "LastFinalizedVersion (meta d)")
    case None
    with assms(2) root show ?thesis
      by (auto simp: Commit_def sanityCheckNamespace_def getLastFinalizedVersion_def Let_def
            Reset_def Cancel_def)
  next
    case (Some lf)
    with assms(2) root show ?thesis
      by (auto simp: Commit_def sanityCheckNamespace_def getLastFinalizedVersion_def Let_def
            Reset_def Cancel_def not_le)
  qed
qed

theorem Commit_existing_root_witness:
  "NewBatch exampleParams (exampleDB 1 (Some 1) 0 siblingStore) (exampleRoot 1 100) 2 False
     = Inr (exampleBatch (exampleRoot 1 100))
   \<and> writeLog (exampleFilledBatch (exampleDB 1 (Some 1) 0 siblingStore) (exampleRoot 1 100))
       = Some [([1], [2])]
   \<and> Commit exampleParams (exampleDB 1 (Some 1) 0 siblingStore)
       (exampleFilledBatch (exampleDB 1 (Some 1) 0 siblingStore) (exampleRoot 1 100))
       (exampleRoot 2 101)
     = (None, exampleDB 1 (Some 1) 0 siblingStore, exampleBatch (exampleRoot 1 100))
   \<and> fst (Commit exampleParams (exampleDB 1 (Some 1) 5 siblingStore)
            (exampleBatch (exampleRoot 1 100)) (exampleRoot 2 101))
     = Some ErrInvalidMultipartVersion
   \<and> fst (Commit exampleParams (exampleDB 1 (Some 1) 0 siblingStore)
            (exampleBatch (exampleRoot 1 100)) ((exampleRoot 2 101)\<lparr>Namespace := 8\<rparr>))
     = Some ErrBadNamespace
   \<and> fst (Commit exampleParams (exampleDB 1 (Some 1) 0 siblingStore)
            (exampleBatch (exampleRoot 0 100)) (exampleRoot 2 101))
     = Some ErrRootMustFollowOld
   \<and> fst (Commit exampleParams (exampleDB 1 (Some 2) 0 siblingStore)
            (exampleBatch (exampleRoot 1 100)) (exampleRoot 2 101))
     = Some ErrAlreadyFinalized"
proof -
  let ?d = "exampleDB 1 (Some 1) 0 siblingStore"
  let ?ba = "exampleFilledBatch ?d (exampleRoot 1 100)"
  let ?r = "exampleRoot 2 101"
  let ?c = "Commit exampleParams ?d ?ba ?r"
  have n: "NewBatch exampleParams ?d (exampleRoot 1 100) 2 False = Inr (exampleBatch (exampleRoot 1 100))"
    by (simp add: NewBatch_def example_defs exampleBatch_def multipartVersionNone_def)
  have b: "?ba = (exampleBatch (exampleRoot 1 100))
                   \<lparr>bat := batchSet (NewWriteBatchAt 4) (NodeKey 31) (VNode [1]),
                    writeLog := Some [([1], [2])], annotations := Some [31],
                    updatedNodes := [\<lparr>Removed = False, nodeHash = 31\<rparr>]\<rparr>"
    by (simp add: exampleFilledBatch_def exampleBatch_def PutNode_def PutWriteLog_def
          exampleDB_def Let_def)
  have h1: "\<not> chunk ?ba" by (simp add: b exampleBatch_def)
  have h1': "\<not> chunk (exampleBatch old)" for old by (simp add: exampleBatch_def)
  have v: "Version ?r = 2" "Version (?r\<lparr>Namespace := 8\<rparr>) = 2"
    by (simp_all add: exampleRoot_def)
  have h3: "map_of [((RootTypeState, 101), []), ((RootTypeState, 102), [])]
              (TypedHashFromRoot ?r) \<noteq> None"
    "map_of [((RootTypeState, 101), []), ((RootTypeState, 102), [])]
              (TypedHashFromRoot (?r\<lparr>Namespace := 8\<rparr>)) \<noteq> None"
    by (simp_all add: exampleRoot_def TypedHashFromRoot_def)
  have g: "(multipartVersion ?d = multipartVersionNone \<or> multipartVersion ?d = Version ?r)
          \<and> Namespace ?r = namespace ?d \<and> Follows exampleParams ?r (oldRoot ?ba)
          \<and> (\<forall>lf. LastFinalizedVersion (meta ?d) = Some lf \<longrightarrow> lf < Version ?r)"
    unfolding b by (simp add: example_defs exampleBatch_def multipartVersionNone_def)
  from Commit_existing_root [OF h1 siblingStore_roots [where e = 1 and lf = "Some 1" and m = 0, OF v(1)] h3(1)] g
  have r: "fst (snd ?c) = ?d" "fst ?c = None" "writeLog (snd (snd ?c)) = None"
    "annotations (snd (snd ?c)) = None" "updatedNodes (snd (snd ?c)) = []"
    "batchWrites (bat (snd (snd ?c))) = []"
    by blast+
  have rest: "batchTs (bat (snd (snd ?c))) = 4" "multipartNodes (snd (snd ?c)) = None"
    "readTxn (snd (snd ?c)) = None" "oldRoot (snd (snd ?c)) = exampleRoot 1 100"
    "chunk (snd (snd ?c)) = False"
    unfolding b
    by (simp_all add: Commit_def commitRoot_def example_defs exampleBatch_def
          multipartVersionNone_def sanityCheckNamespace_def getLastFinalizedVersion_def
          loadRootsMetadata_def txGet_def dbGet_def NewTransactionAt_def TypedHashFromRoot_def
          Let_def Reset_def Cancel_def batchSet_def NewWriteBatchAt_def BaseBatchCommit_def)
  have "snd (snd ?c) = exampleBatch (exampleRoot 1 100)"
    using r rest by (simp add: exampleBatch_def NewWriteBatchAt_def)
  with r have ok: "?c = (None, ?d, exampleBatch (exampleRoot 1 100))"
    by (simp add: prod_eq_iff)
  have wl: "writeLog ?ba = Some [([1], [2])]" by (simp add: b)
  have e1: "fst (Commit exampleParams (exampleDB 1 (Some 1) 5 siblingStore)
              (exampleBatch (exampleRoot 1 100)) ?r) = Some ErrInvalidMultipartVersion"
    using Commit_existing_root [where ba = "exampleBatch (exampleRoot 1 100)",
            OF h1' siblingStore_roots [where e = 1 and lf = "Some 1" and m = 5, OF v(1)] h3(1)]
    by (simp add: example_defs multipartVersionNone_def)
  have e2: "fst (Commit exampleParams ?d (exampleBatch (exampleRoot 1 100))
              (?r\<lparr>Namespace := 8\<rparr>)) = Some ErrBadNamespace"
    using Commit_existing_root [where ba = "exampleBatch (exampleRoot 1 100)",
            OF h1' siblingStore_roots [where e = 1 and lf = "Some 1" and m = 0, OF v(2)] h3(2)]
    by (simp add: example_defs multipartVersionNone_def)
  have e3: "fst (Commit exampleParams ?d (exampleBatch (exampleRoot 0 100)) ?r)
              = Some ErrRootMustFollowOld"
    using Commit_existing_root [where ba = "exampleBatch (exampleRoot 0 100)",
            OF h1' siblingStore_roots [where e = 1 and lf = "Some 1" and m = 0, OF v(1)] h3(1)]
    by (simp add: example_defs exampleBatch_def multipartVersionNone_def)
  have e4: "fst (Commit exampleParams (exampleDB 1 (Some 2) 0 siblingStore)
              (exampleBatch (exampleRoot 1 100)) ?r) = Some ErrAlreadyFinalized"
    using Commit_existing_root [where ba = "exampleBatch (exampleRoot 1 100)",
            OF h1' siblingStore_roots [where e = 1 and lf = "Some 2" and m = 0, OF v(1)] h3(1)]
    by (simp add: example_defs exampleBatch_def multipartVersionNone_def)
  from n wl ok e1 e2 e3 e4 show ?thesis by simp
qed

theorem Commit_finalized_counterexample:
  "Finalize exampleParams (exampleDB 1 (Some 1) 0 siblingStore) [exampleRoot 2 101]
     = Inr (exampleDB 1 (Some 2) 0 finalizedSiblingStore)
   \<and> \<not> chunk (exampleBatch (exampleRoot 1 100))
   \<and> HasRoot exampleParams (exampleDB 1 (Some 2) 0 finalizedSiblingStore) (exampleRoot 2 101)
       = Inr True
   \<and> Commit exampleParams (exampleDB 1 (Some 2) 0 finalizedSiblingStore)
       (exampleBatch (exampleRoot 1 100)) (exampleRoot 2 101)
     = (Some ErrAlreadyFinalized, exampleDB 1 (Some 2) 0 finalizedSiblingStore,
        exampleBatch (exampleRoot 1 100))"
proof -
  have f: "Finalize exampleParams (exampleDB 1 (Some 1) 0 siblingStore) [exampleRoot 2 101]
     = Inr (exampleDB 1 (Some 2) 0 finalizedSiblingStore)"
    by (simp add: example_defs finalize_defs finalizedSiblingStore_def word_le_nat_alt)
  have c: "\<not> chunk (exampleBatch (exampleRoot 1 100))
   \<and> HasRoot exampleParams (exampleDB 1 (Some 2) 0 finalizedSiblingStore) (exampleRoot 2 101)
       = Inr True
   \<and> Commit exampleParams (exampleDB 1 (Some 2) 0 finalizedSiblingStore)
       (exampleBatch (exampleRoot 1 100)) (exampleRoot 2 101)
     = (Some ErrAlreadyFinalized, exampleDB 1 (Some 2) 0 finalizedSiblingStore,
        exampleBatch (exampleRoot 1 100))"
    by (simp add: Commit_def HasRoot_def example_defs finalizedSiblingStore_def exampleBatch_def
        multipartVersionNone_def
        sanityCheckNamespace_def getLastFinalizedVersion_def getEarliestVersion_def
        loadRootsMetadata_def txGet_def dbGet_def NewTransactionAt_def TypedHashFromRoot_def
        IsEmpty_def emptyHash_def Let_def word_le_nat_alt)
  from f c show ?thesis by simp
qed

text \<open>
  C7. For a clean pointer that is not nil, \<open>GetNode\<close> returns \<open>BadNamespace\<close> when the
  namespace of the root is not the engine's; otherwise \<open>NodeNotFound\<close> when the version
  of the root is below the earliest version; otherwise \<open>RootNotFound\<close> when the root
  has no marker at the timestamp of its version; otherwise \<open>NodeNotFound\<close> when no
  node is stored under the hash of the pointer at that timestamp; otherwise the node
  that the stored bytes deserialize to.
\<close>

theorem GetNode_cases:
  assumes "ptrClean p"
  shows "(Namespace r \<noteq> namespace d \<longrightarrow> GetNode P d r (Some p) = Inl ErrBadNamespace)
     \<and> (Namespace r = namespace d \<and> Version r < EarliestVersion (meta d) \<longrightarrow>
          GetNode P d r (Some p) = Inl ErrNodeNotFound)
     \<and> (Namespace r = namespace d \<and> \<not> Version r < EarliestVersion (meta d)
          \<and> dbGet (db d) (versionToTs P (Version r)) (RootNodeKey (TypedHashFromRoot r)) = None \<longrightarrow>
          GetNode P d r (Some p) = Inl ErrRootNotFound)
     \<and> (Namespace r = namespace d \<and> \<not> Version r < EarliestVersion (meta d)
          \<and> dbGet (db d) (versionToTs P (Version r)) (RootNodeKey (TypedHashFromRoot r)) \<noteq> None
          \<and> dbGet (db d) (versionToTs P (Version r)) (NodeKey (ptrHash p)) = None \<longrightarrow>
          GetNode P d r (Some p) = Inl ErrNodeNotFound)
     \<and> (\<forall>t data n. Namespace r = namespace d \<and> \<not> Version r < EarliestVersion (meta d)
          \<and> dbGet (db d) (versionToTs P (Version r)) (RootNodeKey (TypedHashFromRoot r)) \<noteq> None
          \<and> dbGet (db d) (versionToTs P (Version r)) (NodeKey (ptrHash p)) = Some (t, VNode data)
          \<and> UnmarshalBinary P data = Some n \<longrightarrow>
          GetNode P d r (Some p) = Inr n)"
  using assms
  by (auto simp: GetNode_def sanityCheckNamespace_def getEarliestVersion_def checkRoot_def
        txGet_fresh Let_def)

theorem GetNode_cases_witness:
  "GetNode exampleParams (exampleDB 2 (Some 2) 0 siblingStore)
       ((exampleRoot 2 101)\<lparr>Namespace := 8\<rparr>) (Some \<lparr>ptrClean = True, ptrHash = 31\<rparr>)
     = Inl ErrBadNamespace
   \<and> GetNode exampleParams (exampleDB 2 (Some 2) 0 siblingStore)
       (exampleRoot 1 101) (Some \<lparr>ptrClean = True, ptrHash = 31\<rparr>) = Inl ErrNodeNotFound
   \<and> GetNode exampleParams (exampleDB 2 (Some 2) 0 siblingStore)
       (exampleRoot 2 103) (Some \<lparr>ptrClean = True, ptrHash = 31\<rparr>) = Inl ErrRootNotFound
   \<and> GetNode exampleParams (exampleDB 2 (Some 2) 0 siblingStore)
       (exampleRoot 2 101) (Some \<lparr>ptrClean = True, ptrHash = 33\<rparr>) = Inl ErrNodeNotFound
   \<and> GetNode exampleParams (exampleDB 2 (Some 2) 0 siblingStore)
       (exampleRoot 2 101) (Some \<lparr>ptrClean = True, ptrHash = 31\<rparr>) = Inr [1]"
proof -
  let ?d = "exampleDB 2 (Some 2) 0 siblingStore"
  have a: "GetNode exampleParams ?d ((exampleRoot 2 101)\<lparr>Namespace := 8\<rparr>)
             (Some \<lparr>ptrClean = True, ptrHash = 31\<rparr>) = Inl ErrBadNamespace"
    using GetNode_cases [where p = "\<lparr>ptrClean = True, ptrHash = 31\<rparr>" and d = ?d
            and r = "(exampleRoot 2 101)\<lparr>Namespace := 8\<rparr>" and P = exampleParams]
    by (simp add: example_defs)
  have b: "GetNode exampleParams ?d (exampleRoot 1 101)
             (Some \<lparr>ptrClean = True, ptrHash = 31\<rparr>) = Inl ErrNodeNotFound"
    using GetNode_cases [where p = "\<lparr>ptrClean = True, ptrHash = 31\<rparr>" and d = ?d
            and r = "exampleRoot 1 101" and P = exampleParams]
    by (simp add: example_defs)
  have c: "GetNode exampleParams ?d (exampleRoot 2 103)
             (Some \<lparr>ptrClean = True, ptrHash = 31\<rparr>) = Inl ErrRootNotFound"
    using GetNode_cases [where p = "\<lparr>ptrClean = True, ptrHash = 31\<rparr>" and d = ?d
            and r = "exampleRoot 2 103" and P = exampleParams]
    by (simp add: example_defs dbGet_def TypedHashFromRoot_def)
  have d: "GetNode exampleParams ?d (exampleRoot 2 101)
             (Some \<lparr>ptrClean = True, ptrHash = 33\<rparr>) = Inl ErrNodeNotFound"
    using GetNode_cases [where p = "\<lparr>ptrClean = True, ptrHash = 33\<rparr>" and d = ?d
            and r = "exampleRoot 2 101" and P = exampleParams]
    by (simp add: example_defs dbGet_def TypedHashFromRoot_def)
  have e: "GetNode exampleParams ?d (exampleRoot 2 101)
             (Some \<lparr>ptrClean = True, ptrHash = 31\<rparr>) = Inr [1]"
    using GetNode_cases [where p = "\<lparr>ptrClean = True, ptrHash = 31\<rparr>" and d = ?d
            and r = "exampleRoot 2 101" and P = exampleParams]
    by (simp add: example_defs dbGet_def TypedHashFromRoot_def)
  from a b c d e show ?thesis by simp
qed

text \<open>
  C8, as amended. For a version \<open>V\<close> below the earliest version and a root at \<open>V\<close> in
  the namespace of the engine: \<open>GetNode\<close> returns \<open>NodeNotFound\<close>; \<open>HasRoot\<close> is false
  unless the hash of the root is the empty hash, which is present in every version;
  \<open>GetWriteLog\<close> to the root returns \<open>WriteLogNotFound\<close> when write logs are discarded,
  or when the root follows the start root and the start root is in the namespace of
  the engine; \<open>GetRootsForVersion(V)\<close> returns the empty list and no error.
\<close>

theorem below_earliest_version:
  assumes "v < EarliestVersion (meta d)" and "Version r = v" and "Namespace r = namespace d"
  shows "(ptrClean p \<longrightarrow> GetNode P d r (Some p) = Inl ErrNodeNotFound)
     \<and> HasRoot P d r = Inr (IsEmpty (Hash r))
     \<and> (discardWriteLogs d \<or> (Follows P r startRoot \<and> Namespace startRoot = namespace d) \<longrightarrow>
          GetWriteLog P d startRoot r = Inl ErrWriteLogNotFound)
     \<and> GetRootsForVersion P d v = Inr []"
  using assms
  by (auto simp: GetNode_def HasRoot_def GetWriteLog_def GetRootsForVersion_def
        sanityCheckNamespace_def getEarliestVersion_def)

theorem below_earliest_version_witness:
  "GetNode exampleParams (exampleDB 2 (Some 3) 0 siblingStore) (exampleRoot 1 101)
       (Some \<lparr>ptrClean = True, ptrHash = 31\<rparr>) = Inl ErrNodeNotFound
   \<and> HasRoot exampleParams (exampleDB 2 (Some 3) 0 siblingStore) (exampleRoot 1 101) = Inr False
   \<and> GetWriteLog exampleParams (exampleDB 2 (Some 3) 0 siblingStore)
       (exampleRoot 1 100) (exampleRoot 1 101) = Inl ErrWriteLogNotFound
   \<and> GetRootsForVersion exampleParams (exampleDB 2 (Some 3) 0 siblingStore) 1 = Inr []"
  using below_earliest_version [where d = "exampleDB 2 (Some 3) 0 siblingStore" and v = 1
          and r = "exampleRoot 1 101" and p = "\<lparr>ptrClean = True, ptrHash = 31\<rparr>"
          and P = exampleParams and startRoot = "exampleRoot 1 100"]
  by (simp add: exampleDB_def exampleRoot_def exampleParams_def IsEmpty_def emptyHash_def)

theorem HasRoot_empty_counterexample:
  "1 < GetEarliestVersion (exampleDB 2 (Some 3) 0 siblingStore)
   \<and> HasRoot exampleParams (exampleDB 2 (Some 3) 0 siblingStore) (exampleRoot 1 emptyHash)
     = Inr True"
  by (simp add: HasRoot_def exampleDB_def exampleRoot_def sanityCheckNamespace_def IsEmpty_def
        GetEarliestVersion_def getEarliestVersion_def)

text \<open>
  C9. \<open>StartMultipartInsert(V)\<close> returns \<open>InvalidMultipartVersion\<close> when \<open>V = 0\<close>;
  when a restore is active at the same version it succeeds and changes nothing; when
  one is active at another version it returns \<open>MultipartInProgress\<close>; otherwise it
  succeeds, the metadata record stored at the metadata timestamp has
  \<open>multipart_version = V\<close>, and the restore is recorded in memory.
\<close>

theorem StartMultipartInsert_cases:
  "(version = 0 \<longrightarrow> StartMultipartInsert P d version = Inl ErrInvalidMultipartVersion)
   \<and> (version \<noteq> 0 \<and> multipartVersion d = version \<longrightarrow> StartMultipartInsert P d version = Inr d)
   \<and> (version \<noteq> 0 \<and> multipartVersion d \<noteq> 0 \<and> multipartVersion d \<noteq> version \<longrightarrow>
        StartMultipartInsert P d version = Inl ErrMultipartInProgress)
   \<and> (version \<noteq> 0 \<and> multipartVersion d = 0 \<longrightarrow>
        (\<exists>d'. StartMultipartInsert P d version = Inr d'
           \<and> multipartVersion d' = version
           \<and> meta d' = (meta d)\<lparr>MultipartVersion := version\<rparr>
           \<and> dbGet (db d') (tsMetadata P) MetadataKey = Some (tsMetadata P, VMetadata (meta d'))
           \<and> namespace d' = namespace d \<and> readOnly d' = readOnly d
           \<and> discardWriteLogs d' = discardWriteLogs d))"
  by (auto simp: StartMultipartInsert_def multipartVersionNone_def setMultipartVersion_def
        metaSave_def txSet_def NewTransactionAt_def CommitAt_def Let_def dbGet_write_at)

theorem StartMultipartInsert_cases_witness:
  "StartMultipartInsert exampleParams (exampleDB 0 None 0 []) 0 = Inl ErrInvalidMultipartVersion
   \<and> StartMultipartInsert exampleParams (exampleDB 0 None 5 []) 5 = Inr (exampleDB 0 None 5 [])
   \<and> StartMultipartInsert exampleParams (exampleDB 0 None 5 []) 6 = Inl ErrMultipartInProgress
   \<and> (\<exists>d'. StartMultipartInsert exampleParams (exampleDB 0 None 0 []) 5 = Inr d'
         \<and> multipartVersion d' = 5 \<and> MultipartVersion (meta d') = 5)"
proof -
  have m0: "multipartVersion (exampleDB 0 None 0 []) = 0"
    and m5: "multipartVersion (exampleDB 0 None 5 []) = 5"
    by (simp_all add: exampleDB_def)
  have a: "StartMultipartInsert exampleParams (exampleDB 0 None 0 []) 0
             = Inl ErrInvalidMultipartVersion"
    using StartMultipartInsert_cases [of 0 exampleParams "exampleDB 0 None 0 []"] by simp
  have b: "StartMultipartInsert exampleParams (exampleDB 0 None 5 []) 5
             = Inr (exampleDB 0 None 5 [])"
    using StartMultipartInsert_cases [of 5 exampleParams "exampleDB 0 None 5 []"] m5 by simp
  have c: "StartMultipartInsert exampleParams (exampleDB 0 None 5 []) 6
             = Inl ErrMultipartInProgress"
    using StartMultipartInsert_cases [of 6 exampleParams "exampleDB 0 None 5 []"] m5 by simp
  have d: "\<exists>d'. StartMultipartInsert exampleParams (exampleDB 0 None 0 []) 5 = Inr d'
         \<and> multipartVersion d' = 5 \<and> MultipartVersion (meta d') = 5"
    using StartMultipartInsert_cases [of 5 exampleParams "exampleDB 0 None 0 []"] m0 by auto
  from a b c d show ?thesis by blast
qed

text \<open>
  C10. \<open>Finalize\<close> with no roots returns an error in every state of the engine:
  \<open>ReadOnly\<close> on a read-only engine, and otherwise the error that at least one root is
  needed. No version is chosen and the database stays as it was.
\<close>

theorem Finalize_no_roots:
  "Finalize P d [] =
     Inl (if readOnly d then ErrReadOnly
          else Errorf ''mkvs/badger: need at least one root to finalize'')"
  by (simp add: Finalize_def)

theorem Finalize_no_roots_witness:
  "Finalize exampleParams (exampleDB 0 None 0 []) [] =
     Inl (Errorf ''mkvs/badger: need at least one root to finalize'')"
  using Finalize_no_roots [of exampleParams "exampleDB 0 None 0 []"]
  by (simp add: exampleDB_def)

end
